theory Spec2Isabelle
  imports Main "HOL-Library.Multiset"
begin

section \<open>The data model of EarleyParser.py\<close>

text \<open>The enumeration \<^verbatim>\<open>NonTerminal\<close> and the union type
  \<^verbatim>\<open>Union[NonTerminal, str]\<close> of grammar symbols.\<close>

datatype NonTerminal = S | NP | VP | PP | N | V | P

datatype Symbol = NT NonTerminal | Tok string

text \<open>The frozen dataclasses \<^verbatim>\<open>Production\<close> and \<^verbatim>\<open>State\<close>: values compared
  field by field. Python integers are unbounded, hence \<^typ>\<open>int\<close>.\<close>

record Production =
  lhs :: NonTerminal
  rhs :: "Symbol list"

record State =
  production :: Production
  dot :: int
  start :: int

text \<open>The only exception the code of a parse can raise is an index out of range.\<close>

datatype error = IndexError

text \<open>Python's \<^verbatim>\<open>xs[i]\<close>: a negative index counts from the end, an index outside
  \<^verbatim>\<open>-len(xs) .. len(xs)-1\<close> raises.\<close>

definition norm_index :: "'a list \<Rightarrow> int \<Rightarrow> nat" where
  "norm_index xs i = nat (if i < 0 then int (length xs) + i else i)"

definition getitem :: "'a list \<Rightarrow> int \<Rightarrow> error + 'a" where
  "getitem xs i =
     (if - int (length xs) \<le> i \<and> i < int (length xs)
      then Inr (xs ! norm_index xs i) else Inl IndexError)"

definition is_complete :: "State \<Rightarrow> bool" where
  "is_complete st \<longleftrightarrow> dot st \<ge> int (length (rhs (production st)))"

definition next_symbol :: "State \<Rightarrow> error + Symbol option" where
  "next_symbol st =
     (if is_complete st then Inr None
      else case getitem (rhs (production st)) (dot st) of
             Inl e \<Rightarrow> Inl e
           | Inr x \<Rightarrow> Inr (Some x))"

definition advance :: "State \<Rightarrow> State" where
  "advance st = \<lparr>production = production st, dot = dot st + 1, start = State.start st\<rparr>"

text \<open>\<^verbatim>\<open>Grammar\<close>: the dictionary of rules and the start symbol.\<close>

record Grammar =
  rules :: "NonTerminal \<rightharpoonup> Symbol list list"
  start :: NonTerminal

definition productions_for :: "Grammar \<Rightarrow> NonTerminal \<Rightarrow> Production list" where
  "productions_for g nt =
     map (\<lambda>r. \<lparr>lhs = nt, rhs = r\<rparr>) (case rules g nt of None \<Rightarrow> [] | Some alts \<Rightarrow> alts)"

text \<open>\<^verbatim>\<open>Chart\<close>: a list of sets of states. A set is represented by the duplicate-free
  list of its elements in the order of their insertion.\<close>

record Chart =
  columns :: "State list list"

definition new_Chart :: "nat \<Rightarrow> Chart" where
  "new_Chart n = \<lparr>columns = replicate (n + 1) []\<rparr>"

definition add :: "int \<Rightarrow> State \<Rightarrow> Chart \<Rightarrow> error + (Chart \<times> bool)" where
  "add idx state ch =
     (case getitem (columns ch) idx of
        Inl e \<Rightarrow> Inl e
      | Inr col \<Rightarrow>
          if state \<notin> set col
          then Inr (ch\<lparr>columns := (columns ch)[norm_index (columns ch) idx := col @ [state]]\<rparr>, True)
          else Inr (ch, False))"

section \<open>The recognizer\<close>

text \<open>\<^verbatim>\<open>list(s)\<close> of a Python set \<^verbatim>\<open>s\<close> enumerates the elements in an order that
  depends on their hashes, which differ from one process to the next. The order is a
  parameter of the model: a function that rearranges the elements of a column.\<close>

type_synonym listing = "State list \<Rightarrow> State list"

definition listing_ok :: "listing \<Rightarrow> bool" where
  "listing_ok ls \<longleftrightarrow> (\<forall>xs. mset (ls xs) = mset xs)"

text \<open>The seed loop: the results of \<^verbatim>\<open>chart.add\<close> are dropped.\<close>

fun seed :: "Production list \<Rightarrow> Chart \<Rightarrow> error + Chart" where
  "seed [] ch = Inr ch"
| "seed (p # ps) ch =
     (case add 0 \<lparr>production = p, dot = 0, start = 0\<rparr> ch of
        Inl e \<Rightarrow> Inl e
      | Inr (ch', _) \<Rightarrow> seed ps ch')"

text \<open>The completer's loop over the snapshot of column \<^verbatim>\<open>st.start\<close>.\<close>

fun completer :: "nat \<Rightarrow> State \<Rightarrow> State list \<Rightarrow> Chart \<times> bool \<Rightarrow> error + (Chart \<times> bool)" where
  "completer i st [] (ch, changed) = Inr (ch, changed)"
| "completer i st (prev # prevs) (ch, changed) =
     (case next_symbol prev of
        Inl e \<Rightarrow> Inl e
      | Inr nxt \<Rightarrow>
          if nxt = Some (NT (lhs (production st)))
          then (case add (int i) (advance prev) ch of
                  Inl e \<Rightarrow> Inl e
                | Inr (ch', b) \<Rightarrow> completer i st prevs (ch', if b then True else changed))
          else completer i st prevs (ch, changed))"

text \<open>The predictor's loop over the productions of the predicted nonterminal.\<close>

fun predictor :: "nat \<Rightarrow> Production list \<Rightarrow> Chart \<times> bool \<Rightarrow> error + (Chart \<times> bool)" where
  "predictor i [] (ch, changed) = Inr (ch, changed)"
| "predictor i (p # ps) (ch, changed) =
     (case add (int i) \<lparr>production = p, dot = 0, start = int i\<rparr> ch of
        Inl e \<Rightarrow> Inl e
      | Inr (ch', b) \<Rightarrow> predictor i ps (ch', if b then True else changed))"

definition scanner :: "string list \<Rightarrow> nat \<Rightarrow> State \<Rightarrow> string \<Rightarrow> Chart \<times> bool \<Rightarrow> error + (Chart \<times> bool)" where
  "scanner tokens i st term cc =
     (case cc of (ch, changed) \<Rightarrow>
        if i < length tokens
        then (case getitem tokens (int i) of
                Inl e \<Rightarrow> Inl e
              | Inr tok \<Rightarrow>
                  if tok = term
                  then (case add (int i + 1) (advance st) ch of
                          Inl e \<Rightarrow> Inl e
                        | Inr (ch', b) \<Rightarrow> Inr (ch', if b then True else changed))
                  else Inr (ch, changed))
        else Inr (ch, changed))"

text \<open>The body of \<^verbatim>\<open>for st in list(chart[i])\<close>.\<close>

definition process :: "listing \<Rightarrow> Grammar \<Rightarrow> string list \<Rightarrow> nat \<Rightarrow> State \<Rightarrow> Chart \<times> bool \<Rightarrow> error + (Chart \<times> bool)" where
  "process ls g tokens i st cc =
     (case next_symbol st of
        Inl e \<Rightarrow> Inl e
      | Inr None \<Rightarrow>
          (case getitem (columns (fst cc)) (State.start st) of
             Inl e \<Rightarrow> Inl e
           | Inr col \<Rightarrow> completer i st (ls col) cc)
      | Inr (Some (NT nt)) \<Rightarrow> predictor i (productions_for g nt) cc
      | Inr (Some (Tok term)) \<Rightarrow> scanner tokens i st term cc)"

fun pass_loop :: "listing \<Rightarrow> Grammar \<Rightarrow> string list \<Rightarrow> nat \<Rightarrow> State list \<Rightarrow> Chart \<times> bool \<Rightarrow> error + (Chart \<times> bool)" where
  "pass_loop ls g tokens i [] cc = Inr cc"
| "pass_loop ls g tokens i (st # sts) cc =
     (case process ls g tokens i st cc of
        Inl e \<Rightarrow> Inl e
      | Inr cc' \<Rightarrow> pass_loop ls g tokens i sts cc')"

text \<open>One run of the body of \<^verbatim>\<open>while changed\<close>.\<close>

definition pass :: "listing \<Rightarrow> Grammar \<Rightarrow> string list \<Rightarrow> nat \<Rightarrow> Chart \<Rightarrow> error + (Chart \<times> bool)" where
  "pass ls g tokens i ch =
     (case getitem (columns ch) (int i) of
        Inl e \<Rightarrow> Inl e
      | Inr col \<Rightarrow> pass_loop ls g tokens i (ls col) (ch, False))"

text \<open>The loop \<^verbatim>\<open>while changed\<close>; \<^const>\<open>None\<close> is a loop that never ends.\<close>

partial_function (option) closure :: "listing \<Rightarrow> Grammar \<Rightarrow> string list \<Rightarrow> nat \<Rightarrow> Chart \<Rightarrow> (error + Chart) option" where
  "closure ls g tokens i ch =
     (case pass ls g tokens i ch of
        Inl e \<Rightarrow> Some (Inl e)
      | Inr (ch', changed) \<Rightarrow> if changed then closure ls g tokens i ch' else Some (Inr ch'))"

declare closure.simps [code]

text \<open>The loop \<^verbatim>\<open>for i in range(n + 1)\<close>.\<close>

fun columns_loop :: "listing \<Rightarrow> Grammar \<Rightarrow> string list \<Rightarrow> nat list \<Rightarrow> Chart \<Rightarrow> (error + Chart) option" where
  "columns_loop ls g tokens [] ch = Some (Inr ch)"
| "columns_loop ls g tokens (i # rest) ch =
     (case closure ls g tokens i ch of
        None \<Rightarrow> None
      | Some (Inl e) \<Rightarrow> Some (Inl e)
      | Some (Inr ch') \<Rightarrow> columns_loop ls g tokens rest ch')"

text \<open>The chart when the loops of \<^verbatim>\<open>parse\<close> are over.\<close>

definition fill_chart :: "listing \<Rightarrow> Grammar \<Rightarrow> string list \<Rightarrow> (error + Chart) option" where
  "fill_chart ls g tokens =
     (let n = length tokens in
      case seed (productions_for g (Grammar.start g)) (new_Chart n) of
        Inl e \<Rightarrow> Some (Inl e)
      | Inr ch \<Rightarrow> columns_loop ls g tokens [0..<n + 1] ch)"

definition accepting :: "Grammar \<Rightarrow> State \<Rightarrow> bool" where
  "accepting g st \<longleftrightarrow>
     lhs (production st) = Grammar.start g \<and> State.start st = 0 \<and> is_complete st"

text \<open>\<^verbatim>\<open>sum\<close> of booleans: each \<^verbatim>\<open>True\<close> counts 1.\<close>

definition parse :: "listing \<Rightarrow> Grammar \<Rightarrow> string list \<Rightarrow> (error + int) option" where
  "parse ls g tokens =
     (case fill_chart ls g tokens of
        None \<Rightarrow> None
      | Some (Inl e) \<Rightarrow> Some (Inl e)
      | Some (Inr ch) \<Rightarrow>
          (case getitem (columns ch) (int (length tokens)) of
             Inl e \<Rightarrow> Some (Inl e)
           | Inr col \<Rightarrow> Some (Inr (sum_list (map (\<lambda>st. if accepting g st then 1 else 0) (ls col))))))"

text \<open>The sample grammar \<^verbatim>\<open>RULES\<close> with start symbol \<^verbatim>\<open>NonTerminal.S\<close>.\<close>

definition RULES :: "NonTerminal \<rightharpoonup> Symbol list list" where
  "RULES = [
     S \<mapsto> [[NT NP, NT VP]],
     NP \<mapsto> [[NT N, NT PP], [NT N]],
     PP \<mapsto> [[NT P, NT NP]],
     VP \<mapsto> [[NT VP, NT PP], [NT V, NT VP], [NT V, NT NP], [NT V]],
     N \<mapsto> [[Tok ''can''], [Tok ''fish''], [Tok ''they''], [Tok ''rivers''], [Tok ''December'']],
     P \<mapsto> [[Tok ''in'']],
     V \<mapsto> [[Tok ''can''], [Tok ''they'']]]"

definition grammar :: Grammar where
  "grammar = \<lparr>rules = RULES, start = S\<rparr>"

section \<open>Specification notions\<close>

text \<open>The invariant of a state that lives in column \<open>i\<close>.\<close>

definition state_inv :: "nat \<Rightarrow> State \<Rightarrow> bool" where
  "state_inv i st \<longleftrightarrow>
     0 \<le> dot st \<and> dot st \<le> int (length (rhs (production st)))
     \<and> 0 \<le> State.start st \<and> State.start st \<le> int i"

definition chart_bounds :: "Chart \<Rightarrow> bool" where
  "chart_bounds ch \<longleftrightarrow>
     (\<forall>i < length (columns ch). \<forall>st \<in> set (columns ch ! i). state_inv i st)"

text \<open>The states of column \<open>k\<close> as a set.\<close>

definition cols :: "Chart \<Rightarrow> nat \<Rightarrow> State set" where
  "cols ch k = set (columns ch ! k)"

text \<open>The Earley items of a grammar and an input, column by column: the least sets closed
  under the seed step, the predictor, the completer and the scanner as \<^verbatim>\<open>parse\<close> applies
  them.\<close>

inductive earley :: "Grammar \<Rightarrow> string list \<Rightarrow> nat \<Rightarrow> State \<Rightarrow> bool"
  for g :: Grammar and tokens :: "string list" where
  Seed: "p \<in> set (productions_for g (Grammar.start g))
     \<Longrightarrow> earley g tokens 0 \<lparr>production = p, dot = 0, start = 0\<rparr>"
| Predict: "earley g tokens i st \<Longrightarrow> next_symbol st = Inr (Some (NT nt))
     \<Longrightarrow> p \<in> set (productions_for g nt)
     \<Longrightarrow> earley g tokens i \<lparr>production = p, dot = 0, start = int i\<rparr>"
| Complete: "earley g tokens i st \<Longrightarrow> next_symbol st = Inr None
     \<Longrightarrow> State.start st = int j \<Longrightarrow> earley g tokens j prev
     \<Longrightarrow> next_symbol prev = Inr (Some (NT (lhs (production st))))
     \<Longrightarrow> earley g tokens i (advance prev)"
| Scan: "earley g tokens i st \<Longrightarrow> next_symbol st = Inr (Some (Tok t))
     \<Longrightarrow> i < length tokens \<Longrightarrow> tokens ! i = t
     \<Longrightarrow> earley g tokens (i + 1) (advance st)"

text \<open>What the body of the loop over a column adds for the state \<open>st\<close> of column \<open>i\<close>,
  as pairs of a column and a state, when the columns hold the sets \<open>C\<close>.\<close>

definition conseq :: "Grammar \<Rightarrow> string list \<Rightarrow> (nat \<Rightarrow> State set) \<Rightarrow> nat \<Rightarrow> State \<Rightarrow> (nat \<times> State) set" where
  "conseq g tokens C i st =
     (case next_symbol st of
        Inl e \<Rightarrow> {}
      | Inr None \<Rightarrow>
          (\<lambda>prev. (i, advance prev)) `
            {prev \<in> C (nat (State.start st)). next_symbol prev = Inr (Some (NT (lhs (production st))))}
      | Inr (Some (NT nt)) \<Rightarrow>
          (\<lambda>p. (i, \<lparr>production = p, dot = 0, start = int i\<rparr>)) ` set (productions_for g nt)
      | Inr (Some (Tok t)) \<Rightarrow>
          if i < length tokens \<and> tokens ! i = t then {(i + 1, advance st)} else {})"

text \<open>The chart \<open>ch'\<close> is the chart \<open>ch\<close> with the states of \<open>D\<close> appended to their
  columns, those already present left out.\<close>

definition extends :: "Chart \<Rightarrow> (nat \<times> State) set \<Rightarrow> Chart \<Rightarrow> bool" where
  "extends ch D ch' \<longleftrightarrow>
     length (columns ch') = length (columns ch)
     \<and> (\<forall>k < length (columns ch). \<exists>ys.
           columns ch' ! k = columns ch ! k @ ys \<and> distinct ys
           \<and> set ys = {x. (k, x) \<in> D} - set (columns ch ! k))"

text \<open>The invariant of the chart during a parse: one column per position, no duplicates,
  Earley items only.\<close>

definition chart_inv :: "Grammar \<Rightarrow> string list \<Rightarrow> Chart \<Rightarrow> bool" where
  "chart_inv g tokens ch \<longleftrightarrow>
     length (columns ch) = length tokens + 1
     \<and> (\<forall>k \<le> length tokens. distinct (columns ch ! k)
           \<and> (\<forall>x \<in> set (columns ch ! k). earley g tokens k x))"

text \<open>Column \<open>k\<close> is closed: the loop body adds nothing for any of its states.\<close>

definition closed_col :: "Grammar \<Rightarrow> string list \<Rightarrow> Chart \<Rightarrow> nat \<Rightarrow> bool" where
  "closed_col g tokens ch k \<longleftrightarrow>
     (\<forall>st \<in> cols ch k. \<forall>j x. (j, x) \<in> conseq g tokens (cols ch) k st \<longrightarrow> x \<in> cols ch j)"

definition chart_size :: "Chart \<Rightarrow> nat" where
  "chart_size ch = sum_list (map length (columns ch))"

definition grammar_productions :: "Grammar \<Rightarrow> Production set" where
  "grammar_productions g = (\<Union>nt. set (productions_for g nt))"

definition items :: "Grammar \<Rightarrow> nat \<Rightarrow> State set" where
  "items g n = {st. production st \<in> grammar_productions g \<and> state_inv n st}"

section \<open>Indexing and the chart operations\<close>


lemma getitem_nat [simp]:
  "k < length xs \<Longrightarrow> getitem xs (int k) = Inr (xs ! k)"
  by (simp add: getitem_def norm_index_def)

lemma norm_index_nat [simp]: "norm_index xs (int k) = k"
  by (simp add: norm_index_def)

lemma norm_index_less:
  "- int (length xs) \<le> i \<Longrightarrow> i < int (length xs) \<Longrightarrow> norm_index xs i < length xs"
  by (auto simp: norm_index_def)

text \<open>Claim C5. At a valid column index, \<^verbatim>\<open>Chart.add\<close> returns normally; it returns
  \<^verbatim>\<open>True\<close> exactly when the state was absent, which is exactly when the chart changed;
  afterwards the column holds the old states and the new one, a column without duplicates
  stays without duplicates, and no other column is touched.\<close>

theorem add_inserts_once:
  assumes "- int (length (columns ch)) \<le> idx" and "idx < int (length (columns ch))"
  shows "\<exists>ch' b. add idx st ch = Inr (ch', b)
     \<and> (b \<longleftrightarrow> st \<notin> set (columns ch ! norm_index (columns ch) idx))
     \<and> (b \<longleftrightarrow> ch' \<noteq> ch)
     \<and> set (columns ch' ! norm_index (columns ch) idx)
         = insert st (set (columns ch ! norm_index (columns ch) idx))
     \<and> (distinct (columns ch ! norm_index (columns ch) idx)
         \<longrightarrow> distinct (columns ch' ! norm_index (columns ch) idx))
     \<and> length (columns ch') = length (columns ch)
     \<and> (\<forall>k < length (columns ch). k \<noteq> norm_index (columns ch) idx
         \<longrightarrow> columns ch' ! k = columns ch ! k)"
proof -
  let ?k = "norm_index (columns ch) idx"
  have k: "?k < length (columns ch)" using assms by (rule norm_index_less)
  have g: "getitem (columns ch) idx = Inr (columns ch ! ?k)"
    using assms by (simp add: getitem_def)
  show ?thesis
  proof (cases "st \<in> set (columns ch ! ?k)")
    case True
    then show ?thesis using g by (auto simp: add_def)
  next
    case False
    have neq: "ch\<lparr>columns := (columns ch)[?k := columns ch ! ?k @ [st]]\<rparr> \<noteq> ch"
    proof
      assume "ch\<lparr>columns := (columns ch)[?k := columns ch ! ?k @ [st]]\<rparr> = ch"
      then have "columns (ch\<lparr>columns := (columns ch)[?k := columns ch ! ?k @ [st]]\<rparr>) ! ?k = columns ch ! ?k"
        by simp
      then show False using k by simp
    qed
    show ?thesis using False g k neq by (simp add: add_def)
  qed
qed

theorem add_inserts_once_witness:
  "(- int (length (columns (new_Chart 1))) \<le> 1 \<and> 1 < int (length (columns (new_Chart 1))))
   \<and> add 1 \<lparr>production = \<lparr>lhs = S, rhs = []\<rparr>, dot = 0, start = 0\<rparr> (new_Chart 1)
       = Inr (\<lparr>columns = [[], [\<lparr>production = \<lparr>lhs = S, rhs = []\<rparr>, dot = 0, start = 0\<rparr>]]\<rparr>, True)
   \<and> add 1 \<lparr>production = \<lparr>lhs = S, rhs = []\<rparr>, dot = 0, start = 0\<rparr>
        \<lparr>columns = [[], [\<lparr>production = \<lparr>lhs = S, rhs = []\<rparr>, dot = 0, start = 0\<rparr>]]\<rparr>
       = Inr (\<lparr>columns = [[], [\<lparr>production = \<lparr>lhs = S, rhs = []\<rparr>, dot = 0, start = 0\<rparr>]]\<rparr>, False)"
  using add_inserts_once [of "new_Chart 1" 1 "\<lparr>production = \<lparr>lhs = S, rhs = []\<rparr>, dot = 0, start = 0\<rparr>"]
    add_inserts_once [of "\<lparr>columns = [[], [\<lparr>production = \<lparr>lhs = S, rhs = []\<rparr>, dot = 0, start = 0\<rparr>]]\<rparr>" 1
       "\<lparr>production = \<lparr>lhs = S, rhs = []\<rparr>, dot = 0, start = 0\<rparr>"]
  by (simp add: new_Chart_def add_def getitem_def norm_index_def)

text \<open>Claim C6. \<^verbatim>\<open>productions_for\<close> yields one production per declared alternative of
  the nonterminal, in the order of declaration, each with the nonterminal as left-hand side;
  for a nonterminal that is no key of the rules it yields the empty list.\<close>

theorem productions_for_alternatives:
  "(rules g nt = None \<longrightarrow> productions_for g nt = [])
   \<and> (\<forall>alts. rules g nt = Some alts \<longrightarrow>
         length (productions_for g nt) = length alts
         \<and> (\<forall>k < length alts. productions_for g nt ! k = \<lparr>lhs = nt, rhs = alts ! k\<rparr>))"
  by (simp add: productions_for_def)

theorem productions_for_alternatives_witness:
  "rules grammar NP = Some [[NT N, NT PP], [NT N]]
   \<and> productions_for grammar NP = [\<lparr>lhs = NP, rhs = [NT N, NT PP]\<rparr>, \<lparr>lhs = NP, rhs = [NT N]\<rparr>]
   \<and> rules \<lparr>rules = Map.empty, start = S\<rparr> NP = None
   \<and> productions_for \<lparr>rules = Map.empty, start = S\<rparr> NP = []"
  using productions_for_alternatives [of grammar NP]
    productions_for_alternatives [of "\<lparr>rules = Map.empty, start = S\<rparr>" NP]
  by (simp add: grammar_def RULES_def productions_for_def)


section \<open>The loops of the recognizer and the Earley items\<close>



lemma next_symbol_nonneg:
  "0 \<le> dot st \<Longrightarrow> next_symbol st =
     (if int (length (rhs (production st))) \<le> dot st then Inr None
      else Inr (Some (rhs (production st) ! nat (dot st))))"
  by (simp add: next_symbol_def is_complete_def getitem_def norm_index_def)

lemma next_symbol_None_iff: "next_symbol st = Inr None \<longleftrightarrow> is_complete st"
  by (auto simp: next_symbol_def split: sum.splits)

lemma next_symbol_Some_less:
  "next_symbol st = Inr (Some x) \<Longrightarrow> dot st < int (length (rhs (production st)))"
  by (auto simp: next_symbol_def is_complete_def split: if_splits)

lemma Chart_eqI: "columns ch' = columns ch \<Longrightarrow> ch' = (ch::Chart)"
  by simp

lemma extends_refl: "extends ch {} ch"
  by (simp add: extends_def)

lemma extends_length: "extends ch D ch' \<Longrightarrow> length (columns ch') = length (columns ch)"
  by (simp add: extends_def)

lemma extends_cols:
  assumes "extends ch D ch'" and "k < length (columns ch)"
  shows "cols ch' k = cols ch k \<union> {x. (k, x) \<in> D}"
proof -
  from assms obtain ys where "columns ch' ! k = columns ch ! k @ ys"
    and "set ys = {x. (k, x) \<in> D} - set (columns ch ! k)"
    unfolding extends_def by blast
  then show ?thesis by (auto simp: cols_def)
qed

lemma extends_distinct:
  assumes "extends ch D ch'" and "k < length (columns ch)" and "distinct (columns ch ! k)"
  shows "distinct (columns ch' ! k)"
proof -
  from assms obtain ys where "columns ch' ! k = columns ch ! k @ ys" and "distinct ys"
    and "set ys = {x. (k, x) \<in> D} - set (columns ch ! k)"
    unfolding extends_def by blast
  with assms(3) show ?thesis by auto
qed

lemma extends_covered:
  assumes "extends ch D ch'"
    and cov: "\<And>k x. (k, x) \<in> D \<Longrightarrow> k < length (columns ch) \<Longrightarrow> x \<in> cols ch k"
  shows "ch' = ch"
proof -
  have len: "length (columns ch') = length (columns ch)" using assms(1) by (rule extends_length)
  have "columns ch' ! k = columns ch ! k" if k: "k < length (columns ch)" for k
  proof -
    from assms(1) k obtain ys where ys: "columns ch' ! k = columns ch ! k @ ys"
      and s: "set ys = {x. (k, x) \<in> D} - set (columns ch ! k)"
      unfolding extends_def by blast
    have "x \<in> set (columns ch ! k)" if "(k, x) \<in> D" for x
      using cov [OF that k] by (simp add: cols_def)
    then have "set ys = {}" unfolding s by blast
    with ys show ?thesis by simp
  qed
  with len have "columns ch' = columns ch" by (simp add: nth_equalityI)
  then show ?thesis by (rule Chart_eqI)
qed

lemma extends_same_iff:
  assumes "extends ch D ch'"
  shows "ch' = ch \<longleftrightarrow> (\<forall>k x. (k, x) \<in> D \<longrightarrow> k < length (columns ch) \<longrightarrow> x \<in> cols ch k)"
proof
  assume "ch' = ch"
  with assms have e: "extends ch D ch" by simp
  show "\<forall>k x. (k, x) \<in> D \<longrightarrow> k < length (columns ch) \<longrightarrow> x \<in> cols ch k"
  proof (intro allI impI)
    fix k x assume "(k, x) \<in> D" and "k < length (columns ch)"
    with extends_cols [OF e] show "x \<in> cols ch k" by blast
  qed
next
  assume "\<forall>k x. (k, x) \<in> D \<longrightarrow> k < length (columns ch) \<longrightarrow> x \<in> cols ch k"
  then have "\<And>k x. (k, x) \<in> D \<Longrightarrow> k < length (columns ch) \<Longrightarrow> x \<in> cols ch k" by blast
  with assms show "ch' = ch" by (rule extends_covered)
qed

lemma extends_trans:
  assumes "extends ch D1 ch1" and "extends ch1 D2 ch2"
  shows "extends ch (D1 \<union> D2) ch2"
  unfolding extends_def
proof (intro conjI allI impI)
  show "length (columns ch2) = length (columns ch)"
    using assms by (simp add: extends_length)
next
  fix k assume k: "k < length (columns ch)"
  then have k1: "k < length (columns ch1)" using assms(1) by (simp add: extends_length)
  from assms(1) k obtain ys where ys: "columns ch1 ! k = columns ch ! k @ ys" "distinct ys"
    "set ys = {x. (k, x) \<in> D1} - set (columns ch ! k)"
    unfolding extends_def by blast
  from assms(2) k1 obtain zs where zs: "columns ch2 ! k = columns ch1 ! k @ zs" "distinct zs"
    "set zs = {x. (k, x) \<in> D2} - set (columns ch1 ! k)"
    unfolding extends_def by blast
  have "columns ch2 ! k = columns ch ! k @ (ys @ zs)" using ys zs by simp
  moreover have "distinct (ys @ zs)" using ys zs by auto
  moreover have "set (ys @ zs) = {x. (k, x) \<in> D1 \<union> D2} - set (columns ch ! k)"
    using ys zs by auto
  ultimately show "\<exists>ws. columns ch2 ! k = columns ch ! k @ ws \<and> distinct ws
      \<and> set ws = {x. (k, x) \<in> D1 \<union> D2} - set (columns ch ! k)"
    by blast
qed

lemma sum_list_length_mono:
  assumes "length xs = length ys" and "\<forall>k < length xs. length (xs ! k) \<le> length (ys ! k)"
  shows "sum_list (map length xs) \<le> sum_list (map length ys)"
  using assms
proof (induction xs ys rule: list_induct2)
  case Nil
  then show ?case by simp
next
  case (Cons x xs y ys)
  from Cons.prems have "length x \<le> length y" by auto
  moreover from Cons.prems have "\<forall>k < length xs. length (xs ! k) \<le> length (ys ! k)" by auto
  ultimately show ?case using Cons.IH by simp
qed

lemma sum_list_length_strict:
  assumes "length xs = length ys" and "\<forall>k < length xs. length (xs ! k) \<le> length (ys ! k)"
    and "j < length xs" and "length (xs ! j) < length (ys ! j)"
  shows "sum_list (map length xs) < sum_list (map length ys)"
  using assms
proof (induction xs ys arbitrary: j rule: list_induct2)
  case Nil
  then show ?case by simp
next
  case (Cons x xs y ys)
  from Cons.prems(1) have le: "length x \<le> length y" by auto
  from Cons.prems(1) have rest: "\<forall>k < length xs. length (xs ! k) \<le> length (ys ! k)" by auto
  show ?case
  proof (cases j)
    case 0
    with Cons.prems have "length x < length y" by simp
    moreover have "sum_list (map length xs) \<le> sum_list (map length ys)"
      using Cons.hyps rest by (rule sum_list_length_mono)
    ultimately show ?thesis by simp
  next
    case (Suc j')
    with Cons.prems have "j' < length xs" "length (xs ! j') < length (ys ! j')" by auto
    with Cons.IH rest have "sum_list (map length xs) < sum_list (map length ys)" by blast
    with le show ?thesis by simp
  qed
qed

lemma extends_size_le:
  assumes "extends ch D ch'"
  shows "chart_size ch \<le> chart_size ch'"
  unfolding chart_size_def
proof (rule sum_list_length_mono)
  show "length (columns ch) = length (columns ch')" using assms by (simp add: extends_length)
  show "\<forall>k < length (columns ch). length (columns ch ! k) \<le> length (columns ch' ! k)"
  proof (intro allI impI)
    fix k assume "k < length (columns ch)"
    with assms obtain ys where "columns ch' ! k = columns ch ! k @ ys"
      unfolding extends_def by blast
    then show "length (columns ch ! k) \<le> length (columns ch' ! k)" by simp
  qed
qed

lemma extends_size_less:
  assumes "extends ch D ch'" and "ch' \<noteq> ch"
  shows "chart_size ch < chart_size ch'"
proof -
  have len: "length (columns ch) = length (columns ch')" using assms by (simp add: extends_length)
  have le: "\<forall>k < length (columns ch). length (columns ch ! k) \<le> length (columns ch' ! k)"
  proof (intro allI impI)
    fix k assume "k < length (columns ch)"
    with assms obtain ys where "columns ch' ! k = columns ch ! k @ ys"
      unfolding extends_def by blast
    then show "length (columns ch ! k) \<le> length (columns ch' ! k)" by simp
  qed
  from assms(2) have "columns ch' \<noteq> columns ch" by auto
  with len obtain j where j: "j < length (columns ch)" "columns ch' ! j \<noteq> columns ch ! j"
    by (metis nth_equalityI)
  from assms(1) j(1) obtain ys where "columns ch' ! j = columns ch ! j @ ys"
    unfolding extends_def by blast
  with j(2) have "length (columns ch ! j) < length (columns ch' ! j)" by auto
  with len le j(1) show ?thesis
    unfolding chart_size_def by (rule sum_list_length_strict)
qed

lemma add_extends:
  assumes "k < length (columns ch)"
  shows "\<exists>ch'. add (int k) st ch = Inr (ch', st \<notin> cols ch k) \<and> extends ch {(k, st)} ch'"
proof (cases "st \<in> set (columns ch ! k)")
  case True
  have "extends ch {(k, st)} ch"
    unfolding extends_def
  proof (intro conjI allI impI)
    fix j assume "j < length (columns ch)"
    have "{x. (j, x) \<in> {(k, st)}} - set (columns ch ! j) = {}"
      using True by blast
    then have "columns ch ! j = columns ch ! j @ [] \<and> distinct ([]::State list)
       \<and> set [] = {x. (j, x) \<in> {(k, st)}} - set (columns ch ! j)"
      by simp
    then show "\<exists>ys. columns ch ! j = columns ch ! j @ ys \<and> distinct ys
       \<and> set ys = {x. (j, x) \<in> {(k, st)}} - set (columns ch ! j)" by blast
  qed simp
  with True assms show ?thesis by (simp add: add_def cols_def)
next
  case False
  let ?ch' = "ch\<lparr>columns := (columns ch)[k := columns ch ! k @ [st]]\<rparr>"
  have "extends ch {(k, st)} ?ch'"
    unfolding extends_def
  proof (intro conjI allI impI)
    fix j assume j: "j < length (columns ch)"
    show "\<exists>ys. columns ?ch' ! j = columns ch ! j @ ys \<and> distinct ys
       \<and> set ys = {x. (j, x) \<in> {(k, st)}} - set (columns ch ! j)"
    proof (cases "j = k")
      case True
      then have "columns ?ch' ! j = columns ch ! j @ [st] \<and> distinct [st]
         \<and> set [st] = {x. (j, x) \<in> {(k, st)}} - set (columns ch ! j)"
        using False j by auto
      then show ?thesis by blast
    next
      case False
      then have "columns ?ch' ! j = columns ch ! j @ [] \<and> distinct ([]::State list)
         \<and> set [] = {x. (j, x) \<in> {(k, st)}} - set (columns ch ! j)"
        using j by auto
      then show ?thesis by blast
    qed
  qed simp
  with False assms show ?thesis by (simp add: add_def cols_def)
qed


lemma extends_neq_trans:
  assumes "extends ch D1 ch1" and "extends ch1 D2 ch2"
  shows "ch2 \<noteq> ch \<longleftrightarrow> ch1 \<noteq> ch \<or> ch2 \<noteq> ch1"
proof (cases "ch1 = ch")
  case True
  then show ?thesis by simp
next
  case False
  with assms(1) have "chart_size ch < chart_size ch1" by (rule extends_size_less)
  moreover from assms(2) have "chart_size ch1 \<le> chart_size ch2" by (rule extends_size_le)
  ultimately have "ch2 \<noteq> ch" by auto
  with False show ?thesis by simp
qed

lemma add_flag:
  assumes "k < length (columns ch)"
  shows "\<exists>ch'. add (int k) st ch = Inr (ch', ch' \<noteq> ch) \<and> extends ch {(k, st)} ch'"
proof -
  from add_extends [OF assms] obtain ch' where
    a: "add (int k) st ch = Inr (ch', st \<notin> cols ch k)" and e: "extends ch {(k, st)} ch'"
    by blast
  from extends_same_iff [OF e] assms have "ch' = ch \<longleftrightarrow> st \<in> cols ch k" by simp
  with a e show ?thesis by auto
qed

lemma completer_extends:
  assumes "i < length (columns ch)" and "\<forall>prev \<in> set prevs. 0 \<le> dot prev"
  shows "\<exists>ch'. completer i st prevs (ch, c) = Inr (ch', c \<or> ch' \<noteq> ch)
     \<and> extends ch ((\<lambda>prev. (i, advance prev)) `
          {prev \<in> set prevs. next_symbol prev = Inr (Some (NT (lhs (production st))))}) ch'"
  using assms
proof (induction prevs arbitrary: ch c)
  case Nil
  then show ?case by (simp add: extends_refl)
next
  case (Cons prev prevs)
  let ?A = "lhs (production st)"
  let ?D = "(\<lambda>prev. (i, advance prev)) ` {prev \<in> set prevs. next_symbol prev = Inr (Some (NT ?A))}"
  from Cons.prems have nn: "0 \<le> dot prev" and rest: "\<forall>prev \<in> set prevs. 0 \<le> dot prev" by auto
  from next_symbol_nonneg [OF nn] obtain nxt where nxt: "next_symbol prev = Inr nxt"
    by (auto split: if_splits)
  show ?case
  proof (cases "nxt = Some (NT ?A)")
    case True
    from add_flag [OF Cons.prems(1)] obtain ch1 where
      a: "add (int i) (advance prev) ch = Inr (ch1, ch1 \<noteq> ch)"
      and e1: "extends ch {(i, advance prev)} ch1" by blast
    have len1: "i < length (columns ch1)" using e1 Cons.prems(1) by (simp add: extends_length)
    from Cons.IH [OF len1 rest, of "if ch1 \<noteq> ch then True else c"] obtain ch' where
      r: "completer i st prevs (ch1, if ch1 \<noteq> ch then True else c)
          = Inr (ch', (if ch1 \<noteq> ch then True else c) \<or> ch' \<noteq> ch1)"
      and e2: "extends ch1 ?D ch'" by blast
    have flag: "((if ch1 \<noteq> ch then True else c) \<or> ch' \<noteq> ch1) = (c \<or> ch' \<noteq> ch)"
      using extends_neq_trans [OF e1 e2] by auto
    have D: "{(i, advance prev)} \<union> ?D = (\<lambda>prev. (i, advance prev)) `
        {p \<in> set (prev # prevs). next_symbol p = Inr (Some (NT ?A))}"
      using nxt True by auto
    have "extends ch ({(i, advance prev)} \<union> ?D) ch'" using e1 e2 by (rule extends_trans)
    then have e: "extends ch ((\<lambda>prev. (i, advance prev)) `
        {p \<in> set (prev # prevs). next_symbol p = Inr (Some (NT ?A))}) ch'"
      unfolding D .
    have "completer i st (prev # prevs) (ch, c) = Inr (ch', c \<or> ch' \<noteq> ch)"
      using nxt True a r flag by simp
    with e show ?thesis by blast
  next
    case False
    from Cons.IH [OF Cons.prems(1) rest, of c] obtain ch' where
      r: "completer i st prevs (ch, c) = Inr (ch', c \<or> ch' \<noteq> ch)"
      and e2: "extends ch ?D ch'" by blast
    have D: "?D = (\<lambda>prev. (i, advance prev)) `
        {p \<in> set (prev # prevs). next_symbol p = Inr (Some (NT ?A))}"
      using nxt False by auto
    have e: "extends ch ((\<lambda>prev. (i, advance prev)) `
        {p \<in> set (prev # prevs). next_symbol p = Inr (Some (NT ?A))}) ch'"
      using e2 unfolding D .
    have "completer i st (prev # prevs) (ch, c) = Inr (ch', c \<or> ch' \<noteq> ch)"
      using nxt False r by simp
    with e show ?thesis by blast
  qed
qed

lemma predictor_extends:
  assumes "i < length (columns ch)"
  shows "\<exists>ch'. predictor i ps (ch, c) = Inr (ch', c \<or> ch' \<noteq> ch)
     \<and> extends ch ((\<lambda>p. (i, \<lparr>production = p, dot = 0, start = int i\<rparr>)) ` set ps) ch'"
  using assms
proof (induction ps arbitrary: ch c)
  case Nil
  then show ?case by (simp add: extends_refl)
next
  case (Cons p ps)
  let ?f = "\<lambda>p. (i, \<lparr>production = p, dot = 0, start = int i\<rparr>)"
  from add_flag [OF Cons.prems] obtain ch1 where
    a: "add (int i) \<lparr>production = p, dot = 0, start = int i\<rparr> ch = Inr (ch1, ch1 \<noteq> ch)"
    and e1: "extends ch {?f p} ch1" by blast
  have len1: "i < length (columns ch1)" using e1 Cons.prems by (simp add: extends_length)
  from Cons.IH [OF len1, of "if ch1 \<noteq> ch then True else c"] obtain ch' where
    r: "predictor i ps (ch1, if ch1 \<noteq> ch then True else c)
        = Inr (ch', (if ch1 \<noteq> ch then True else c) \<or> ch' \<noteq> ch1)"
    and e2: "extends ch1 (?f ` set ps) ch'" by blast
  have flag: "((if ch1 \<noteq> ch then True else c) \<or> ch' \<noteq> ch1) = (c \<or> ch' \<noteq> ch)"
    using extends_neq_trans [OF e1 e2] by auto
  have "extends ch ({?f p} \<union> ?f ` set ps) ch'" using e1 e2 by (rule extends_trans)
  then have e: "extends ch (?f ` set (p # ps)) ch'" by simp
  have "predictor i (p # ps) (ch, c) = Inr (ch', c \<or> ch' \<noteq> ch)"
    using a r flag by simp
  with e show ?case by blast
qed

lemma scanner_extends:
  assumes "length (columns ch) = length tokens + 1"
  shows "\<exists>ch'. scanner tokens i st t (ch, c) = Inr (ch', c \<or> ch' \<noteq> ch)
     \<and> extends ch (if i < length tokens \<and> tokens ! i = t then {(i + 1, advance st)} else {}) ch'"
proof (cases "i < length tokens \<and> tokens ! i = t")
  case True
  then have k: "i + 1 < length (columns ch)" using assms by simp
  from add_flag [OF k] obtain ch' where
    a: "add (int (i + 1)) (advance st) ch = Inr (ch', ch' \<noteq> ch)"
    and e: "extends ch {(i + 1, advance st)} ch'" by blast
  have "int i + 1 = int (i + 1)" by simp
  with a have a': "add (int i + 1) (advance st) ch = Inr (ch', ch' \<noteq> ch)" by metis
  have "scanner tokens i st t (ch, c) = Inr (ch', c \<or> ch' \<noteq> ch)"
    using True a' by (auto simp: scanner_def)
  with e True show ?thesis by auto
next
  case False
  then have "scanner tokens i st t (ch, c) = Inr (ch, c \<or> ch \<noteq> ch)"
    by (auto simp: scanner_def)
  with False show ?thesis using extends_refl [of ch] by auto
qed

lemma process_extends:
  assumes len: "length (columns ch) = length tokens + 1" and i: "i \<le> length tokens"
    and dot: "0 \<le> dot st" and s0: "0 \<le> State.start st" and si: "State.start st \<le> int i"
    and prevs: "\<forall>prev \<in> cols ch (nat (State.start st)). 0 \<le> dot prev"
    and ls: "\<And>xs. set (ls xs) = set xs"
  shows "\<exists>ch'. process ls g tokens i st (ch, c) = Inr (ch', c \<or> ch' \<noteq> ch)
     \<and> extends ch (conseq g tokens (cols ch) i st) ch'"
proof -
  have il: "i < length (columns ch)" using len i by simp
  from next_symbol_nonneg [OF dot] obtain nxt where nxt: "next_symbol st = Inr nxt"
    by (auto split: if_splits)
  show ?thesis
  proof (cases nxt)
    case None
    let ?j = "nat (State.start st)"
    have j: "?j < length (columns ch)" using s0 si il by linarith
    have "int ?j = State.start st" using s0 by simp
    with getitem_nat [OF j] have gi: "getitem (columns ch) (State.start st) = Inr (columns ch ! ?j)"
      by simp
    have nn: "\<forall>prev \<in> set (ls (columns ch ! ?j)). 0 \<le> dot prev"
      using prevs by (simp add: ls cols_def)
    from completer_extends [OF il nn, of st c] obtain ch' where
      r: "completer i st (ls (columns ch ! ?j)) (ch, c) = Inr (ch', c \<or> ch' \<noteq> ch)"
      and e: "extends ch ((\<lambda>prev. (i, advance prev)) `
          {prev \<in> set (ls (columns ch ! ?j)). next_symbol prev = Inr (Some (NT (lhs (production st))))}) ch'"
      by blast
    have "conseq g tokens (cols ch) i st = (\<lambda>prev. (i, advance prev)) `
          {prev \<in> set (ls (columns ch ! ?j)). next_symbol prev = Inr (Some (NT (lhs (production st))))}"
      using nxt None by (simp add: conseq_def ls cols_def)
    with e have "extends ch (conseq g tokens (cols ch) i st) ch'" by simp
    moreover have "process ls g tokens i st (ch, c) = Inr (ch', c \<or> ch' \<noteq> ch)"
      using nxt None gi r by (simp add: process_def)
    ultimately show ?thesis by blast
  next
    case (Some x)
    show ?thesis
    proof (cases x)
      case (NT nt)
      from predictor_extends [OF il, of "productions_for g nt" c] obtain ch' where
        r: "predictor i (productions_for g nt) (ch, c) = Inr (ch', c \<or> ch' \<noteq> ch)"
        and e: "extends ch ((\<lambda>p. (i, \<lparr>production = p, dot = 0, start = int i\<rparr>)) `
            set (productions_for g nt)) ch'" by blast
      have "conseq g tokens (cols ch) i st =
          (\<lambda>p. (i, \<lparr>production = p, dot = 0, start = int i\<rparr>)) ` set (productions_for g nt)"
        using nxt Some NT by (simp add: conseq_def)
      with e have "extends ch (conseq g tokens (cols ch) i st) ch'" by simp
      moreover have "process ls g tokens i st (ch, c) = Inr (ch', c \<or> ch' \<noteq> ch)"
        using nxt Some NT r by (simp add: process_def)
      ultimately show ?thesis by blast
    next
      case (Tok t)
      from scanner_extends [OF len, of i st t c] obtain ch' where
        r: "scanner tokens i st t (ch, c) = Inr (ch', c \<or> ch' \<noteq> ch)"
        and e: "extends ch (if i < length tokens \<and> tokens ! i = t then {(i + 1, advance st)} else {}) ch'"
        by blast
      have "conseq g tokens (cols ch) i st =
          (if i < length tokens \<and> tokens ! i = t then {(i + 1, advance st)} else {})"
        using nxt Some Tok by (simp add: conseq_def)
      with e have "extends ch (conseq g tokens (cols ch) i st) ch'" by simp
      moreover have "process ls g tokens i st (ch, c) = Inr (ch', c \<or> ch' \<noteq> ch)"
        using nxt Some Tok r by (simp add: process_def)
      ultimately show ?thesis by blast
    qed
  qed
qed


lemma state_inv_mono: "state_inv k x \<Longrightarrow> k \<le> n \<Longrightarrow> state_inv n x"
  by (simp add: state_inv_def)

lemma state_inv_advance:
  assumes "state_inv j prev" and "next_symbol prev = Inr (Some x)" and "j \<le> i"
  shows "state_inv i (advance prev)"
proof -
  from assms(2) have "dot prev < int (length (rhs (production prev)))"
    by (rule next_symbol_Some_less)
  with assms(1,3) show ?thesis by (simp add: state_inv_def advance_def)
qed

lemma earley_facts:
  assumes "earley g tokens k x"
  shows "state_inv k x \<and> production x \<in> grammar_productions g \<and> k \<le> length tokens"
  using assms
proof (induction rule: earley.induct)
  case (Seed p)
  then show ?case by (auto simp: state_inv_def grammar_productions_def)
next
  case (Predict i st nt p)
  then show ?case by (auto simp: state_inv_def grammar_productions_def)
next
  case (Complete i st j prev)
  from Complete.IH have a: "state_inv i st" and b: "state_inv j prev" by simp_all
  from a Complete.hyps(3) have "j \<le> i" by (simp add: state_inv_def)
  with b Complete.hyps(5) have "state_inv i (advance prev)" by (rule state_inv_advance)
  with Complete.IH show ?case by (simp add: advance_def)
next
  case (Scan i st t)
  from Scan.IH have "state_inv i st" by simp
  then have "state_inv (i + 1) (advance st)" using Scan.hyps(2) by (rule state_inv_advance) simp
  with Scan.IH Scan.hyps(3) show ?case by (simp add: advance_def)
qed

lemma conseq_target:
  assumes "(k, x) \<in> conseq g tokens C i st"
  shows "k = i \<or> (k = i + 1 \<and> i < length tokens)"
  using assms
  by (auto simp: conseq_def split: sum.splits option.splits Symbol.splits if_splits)

lemma conseq_sound:
  assumes st: "earley g tokens i st"
    and C: "\<And>prev. prev \<in> C (nat (State.start st)) \<Longrightarrow> earley g tokens (nat (State.start st)) prev"
    and kx: "(k, x) \<in> conseq g tokens C i st"
  shows "earley g tokens k x"
proof -
  from earley_facts [OF st] have inv: "state_inv i st" by simp
  then have nn: "0 \<le> dot st" and s0: "0 \<le> State.start st" by (simp_all add: state_inv_def)
  from next_symbol_nonneg [OF nn] obtain nxt where nxt: "next_symbol st = Inr nxt"
    by (auto split: if_splits)
  show ?thesis
  proof (cases nxt)
    case None
    with kx nxt obtain prev where p: "prev \<in> C (nat (State.start st))"
      "next_symbol prev = Inr (Some (NT (lhs (production st))))" and k: "k = i" and x: "x = advance prev"
      by (auto simp: conseq_def)
    have "State.start st = int (nat (State.start st))" using s0 by simp
    with st nxt None C [OF p(1)] p(2) have "earley g tokens i (advance prev)"
      by (metis earley.Complete)
    with k x show ?thesis by simp
  next
    case (Some y)
    show ?thesis
    proof (cases y)
      case (NT nt)
      with kx nxt Some obtain p where "p \<in> set (productions_for g nt)" "k = i"
        "x = \<lparr>production = p, dot = 0, start = int i\<rparr>"
        by (auto simp: conseq_def)
      with st nxt Some NT show ?thesis by (metis earley.Predict)
    next
      case (Tok t)
      with kx nxt Some have "i < length tokens" "tokens ! i = t" "k = i + 1" "x = advance st"
        by (auto simp: conseq_def split: if_splits)
      with st nxt Some Tok show ?thesis by (metis earley.Scan)
    qed
  qed
qed

lemma chart_inv_cols:
  assumes "chart_inv g tokens ch" and "k \<le> length tokens" and "x \<in> cols ch k"
  shows "earley g tokens k x"
  using assms by (simp add: chart_inv_def cols_def)

lemma chart_inv_length: "chart_inv g tokens ch \<Longrightarrow> length (columns ch) = length tokens + 1"
  by (simp add: chart_inv_def)

lemma chart_inv_extends:
  assumes inv: "chart_inv g tokens ch" and e: "extends ch D ch'"
    and D: "\<And>k x. (k, x) \<in> D \<Longrightarrow> earley g tokens k x"
  shows "chart_inv g tokens ch'"
  unfolding chart_inv_def
proof (intro conjI allI impI)
  show "length (columns ch') = length tokens + 1"
    using inv e by (simp add: chart_inv_def extends_length)
next
  fix k assume k: "k \<le> length tokens"
  then have kl: "k < length (columns ch)" using inv by (simp add: chart_inv_def)
  from inv k have "distinct (columns ch ! k)" by (simp add: chart_inv_def)
  with e kl show "distinct (columns ch' ! k)" by (rule extends_distinct)
  show "\<forall>x \<in> set (columns ch' ! k). earley g tokens k x"
  proof
    fix x assume "x \<in> set (columns ch' ! k)"
    then have "x \<in> cols ch' k" by (simp add: cols_def)
    with extends_cols [OF e kl] have "x \<in> cols ch k \<or> (k, x) \<in> D" by blast
    then show "earley g tokens k x"
    proof
      assume "x \<in> cols ch k"
      with inv k show ?thesis by (rule chart_inv_cols)
    next
      assume "(k, x) \<in> D"
      then show ?thesis by (rule D)
    qed
  qed
qed

lemma process_inv:
  assumes inv: "chart_inv g tokens ch" and i: "i \<le> length tokens" and st: "st \<in> cols ch i"
    and ls: "\<And>xs. set (ls xs) = set xs"
  shows "\<exists>ch'. process ls g tokens i st (ch, c) = Inr (ch', c \<or> ch' \<noteq> ch)
     \<and> extends ch (conseq g tokens (cols ch) i st) ch' \<and> chart_inv g tokens ch'"
proof -
  have est: "earley g tokens i st" using inv i st by (rule chart_inv_cols)
  from earley_facts [OF est] have sinv: "state_inv i st" by simp
  then have dot: "0 \<le> dot st" and s0: "0 \<le> State.start st" and si: "State.start st \<le> int i"
    by (simp_all add: state_inv_def)
  have j: "nat (State.start st) \<le> length tokens" using si i by linarith
  have prevs_e: "earley g tokens (nat (State.start st)) prev"
    if "prev \<in> cols ch (nat (State.start st))" for prev
    using inv j that by (rule chart_inv_cols)
  have prevs: "\<forall>prev \<in> cols ch (nat (State.start st)). 0 \<le> dot prev"
  proof
    fix prev assume "prev \<in> cols ch (nat (State.start st))"
    from earley_facts [OF prevs_e [OF this]] show "0 \<le> dot prev" by (simp add: state_inv_def)
  qed
  from process_extends [OF chart_inv_length [OF inv] i dot s0 si prevs ls, of g c]
  obtain ch' where r: "process ls g tokens i st (ch, c) = Inr (ch', c \<or> ch' \<noteq> ch)"
    and e: "extends ch (conseq g tokens (cols ch) i st) ch'" by blast
  have "chart_inv g tokens ch'" using inv e
  proof (rule chart_inv_extends)
    fix k x assume "(k, x) \<in> conseq g tokens (cols ch) i st"
    with est prevs_e show "earley g tokens k x" by (rule conseq_sound)
  qed
  with r e show ?thesis by blast
qed


lemma extends_cols_mono:
  assumes "extends ch D ch'" and "k < length (columns ch)"
  shows "cols ch k \<subseteq> cols ch' k"
  using extends_cols [OF assms] by blast

lemma pass_loop_inv:
  assumes inv: "chart_inv g tokens ch" and i: "i \<le> length tokens"
    and sts: "set sts \<subseteq> cols ch i" and ls: "\<And>xs. set (ls xs) = set xs"
  shows "\<exists>ch' D. pass_loop ls g tokens i sts (ch, c) = Inr (ch', c \<or> ch' \<noteq> ch)
     \<and> extends ch D ch' \<and> chart_inv g tokens ch'
     \<and> (\<forall>k x. (k, x) \<in> D \<longrightarrow> k = i \<or> k = i + 1)
     \<and> (ch' = ch \<longrightarrow> (\<forall>st \<in> set sts. \<forall>k x.
            (k, x) \<in> conseq g tokens (cols ch) i st \<longrightarrow> x \<in> cols ch k))"
  using inv sts
proof (induction sts arbitrary: ch c)
  case Nil
  have "pass_loop ls g tokens i [] (ch, c) = Inr (ch, c \<or> ch \<noteq> ch)" by simp
  moreover have "extends ch {} ch" by (rule extends_refl)
  moreover have "\<forall>k x. (k, x) \<in> ({}::(nat \<times> State) set) \<longrightarrow> k = i \<or> k = i + 1" by simp
  moreover have "ch = ch \<longrightarrow> (\<forall>st \<in> set []. \<forall>k x.
            (k, x) \<in> conseq g tokens (cols ch) i st \<longrightarrow> x \<in> cols ch k)" by simp
  ultimately show ?case using Nil.prems(1) by (intro exI conjI)
next
  case (Cons st sts)
  have il: "i < length (columns ch)" using Cons.prems(1) i by (simp add: chart_inv_def)
  from Cons.prems(2) have st: "st \<in> cols ch i" and rest: "set sts \<subseteq> cols ch i" by auto
  from process_inv [OF Cons.prems(1) i st ls, of c] obtain ch1 where
    r1: "process ls g tokens i st (ch, c) = Inr (ch1, c \<or> ch1 \<noteq> ch)"
    and e1: "extends ch (conseq g tokens (cols ch) i st) ch1"
    and inv1: "chart_inv g tokens ch1" by blast
  have rest1: "set sts \<subseteq> cols ch1 i" using rest extends_cols_mono [OF e1 il] by blast
  from Cons.IH [OF inv1 rest1, of "c \<or> ch1 \<noteq> ch"] obtain ch' D where
    r2: "pass_loop ls g tokens i sts (ch1, c \<or> ch1 \<noteq> ch) = Inr (ch', (c \<or> ch1 \<noteq> ch) \<or> ch' \<noteq> ch1)"
    and e2: "extends ch1 D ch'" and inv': "chart_inv g tokens ch'"
    and tg: "\<forall>k x. (k, x) \<in> D \<longrightarrow> k = i \<or> k = i + 1"
    and cl: "ch' = ch1 \<longrightarrow> (\<forall>st \<in> set sts. \<forall>k x.
            (k, x) \<in> conseq g tokens (cols ch1) i st \<longrightarrow> x \<in> cols ch1 k)"
    by blast
  let ?D = "conseq g tokens (cols ch) i st \<union> D"
  have neq: "ch' \<noteq> ch \<longleftrightarrow> ch1 \<noteq> ch \<or> ch' \<noteq> ch1" using e1 e2 by (rule extends_neq_trans)
  then have flag: "((c \<or> ch1 \<noteq> ch) \<or> ch' \<noteq> ch1) = (c \<or> ch' \<noteq> ch)" by blast
  have r: "pass_loop ls g tokens i (st # sts) (ch, c) = Inr (ch', c \<or> ch' \<noteq> ch)"
    using r1 r2 flag by simp
  have e: "extends ch ?D ch'" using e1 e2 by (rule extends_trans)
  have tg': "\<forall>k x. (k, x) \<in> ?D \<longrightarrow> k = i \<or> k = i + 1"
    using tg conseq_target by blast
  have cl': "ch' = ch \<longrightarrow> (\<forall>s \<in> set (st # sts). \<forall>k x.
            (k, x) \<in> conseq g tokens (cols ch) i s \<longrightarrow> x \<in> cols ch k)"
  proof
    assume same: "ch' = ch"
    with neq have c1: "ch1 = ch" and c2: "ch' = ch1" by auto
    have a: "x \<in> cols ch k" if "(k, x) \<in> conseq g tokens (cols ch) i st" for k x
    proof -
      from conseq_target [OF that] i have "k \<le> length tokens" by auto
      then have "k < length (columns ch)" using Cons.prems(1) by (simp add: chart_inv_def)
      with extends_same_iff [OF e1] c1 that show ?thesis by blast
    qed
    from cl c1 c2 have b: "\<forall>s \<in> set sts. \<forall>k x.
            (k, x) \<in> conseq g tokens (cols ch) i s \<longrightarrow> x \<in> cols ch k" by simp
    show "\<forall>s \<in> set (st # sts). \<forall>k x.
            (k, x) \<in> conseq g tokens (cols ch) i s \<longrightarrow> x \<in> cols ch k"
      using a b by simp
  qed
  from r e inv' tg' cl' show ?case by blast
qed

lemma pass_inv:
  assumes inv: "chart_inv g tokens ch" and i: "i \<le> length tokens"
    and ls: "\<And>xs. set (ls xs) = set xs"
  shows "\<exists>ch' D. pass ls g tokens i ch = Inr (ch', ch' \<noteq> ch)
     \<and> extends ch D ch' \<and> chart_inv g tokens ch'
     \<and> (\<forall>k x. (k, x) \<in> D \<longrightarrow> k = i \<or> k = i + 1)
     \<and> (ch' = ch \<longrightarrow> closed_col g tokens ch i)"
proof -
  have il: "i < length (columns ch)" using inv i by (simp add: chart_inv_def)
  have sub: "set (ls (columns ch ! i)) \<subseteq> cols ch i" by (simp add: ls cols_def)
  from pass_loop_inv [OF inv i sub ls, of False] obtain ch' D where
    r: "pass_loop ls g tokens i (ls (columns ch ! i)) (ch, False) = Inr (ch', False \<or> ch' \<noteq> ch)"
    and e: "extends ch D ch'" and inv': "chart_inv g tokens ch'"
    and tg: "\<forall>k x. (k, x) \<in> D \<longrightarrow> k = i \<or> k = i + 1"
    and cl: "ch' = ch \<longrightarrow> (\<forall>st \<in> set (ls (columns ch ! i)). \<forall>k x.
            (k, x) \<in> conseq g tokens (cols ch) i st \<longrightarrow> x \<in> cols ch k)"
    by blast
  have "pass ls g tokens i ch = Inr (ch', ch' \<noteq> ch)" using r il by (simp add: pass_def)
  moreover have "ch' = ch \<longrightarrow> closed_col g tokens ch i"
    using cl by (simp add: closed_col_def ls cols_def)
  ultimately show ?thesis using e inv' tg by blast
qed


lemma UNIV_NonTerminal: "(UNIV :: NonTerminal set) = {S, NP, VP, PP, N, V, P}"
proof -
  have "x \<in> {S, NP, VP, PP, N, V, P}" for x :: NonTerminal
    by (cases x) simp_all
  then show ?thesis by blast
qed

lemma finite_grammar_productions: "finite (grammar_productions g)"
proof -
  have "finite (UNIV :: NonTerminal set)" unfolding UNIV_NonTerminal by simp
  then show ?thesis unfolding grammar_productions_def by simp
qed

lemma finite_items: "finite (items g n)"
proof -
  let ?f = "\<lambda>p. (\<lambda>(d, s). \<lparr>production = p, dot = d, start = s\<rparr>) `
      ({0 .. int (length (rhs p))} \<times> {0 .. int n})"
  have "items g n \<subseteq> (\<Union>p \<in> grammar_productions g. ?f p)"
  proof
    fix st assume "st \<in> items g n"
    then have p: "production st \<in> grammar_productions g" and inv: "state_inv n st"
      by (simp_all add: items_def)
    have "st = \<lparr>production = production st, dot = dot st, start = State.start st\<rparr>" by simp
    moreover have "(dot st, State.start st) \<in> {0 .. int (length (rhs (production st)))} \<times> {0 .. int n}"
      using inv by (simp add: state_inv_def)
    ultimately have "st \<in> ?f (production st)" by (metis (no_types, lifting) image_eqI case_prod_conv)
    with p show "st \<in> (\<Union>p \<in> grammar_productions g. ?f p)" by blast
  qed
  moreover have "finite (\<Union>p \<in> grammar_productions g. ?f p)"
    using finite_grammar_productions by simp
  ultimately show ?thesis by (rule finite_subset)
qed

lemma sum_list_length_bound:
  assumes "\<forall>x \<in> set xs. length x \<le> b"
  shows "sum_list (map length xs) \<le> length xs * b"
  using assms by (induction xs) auto

lemma chart_size_bound:
  assumes inv: "chart_inv g tokens ch"
  shows "chart_size ch \<le> (length tokens + 1) * card (items g (length tokens))"
proof -
  let ?n = "length tokens"
  have "\<forall>col \<in> set (columns ch). length col \<le> card (items g ?n)"
  proof
    fix col assume "col \<in> set (columns ch)"
    then obtain k where k: "k < length (columns ch)" and col: "col = columns ch ! k"
      by (auto simp: in_set_conv_nth)
    from k inv have kn: "k \<le> ?n" by (simp add: chart_inv_def)
    with inv have d: "distinct col" and e: "\<forall>x \<in> set col. earley g tokens k x"
      by (simp_all add: chart_inv_def col)
    have "set col \<subseteq> items g ?n"
    proof
      fix x assume "x \<in> set col"
      with e have "earley g tokens k x" by blast
      from earley_facts [OF this] kn show "x \<in> items g ?n"
        by (auto simp: items_def intro: state_inv_mono)
    qed
    then have "card (set col) \<le> card (items g ?n)" using finite_items by (simp add: card_mono)
    with d show "length col \<le> card (items g ?n)" by (simp add: distinct_card)
  qed
  then have "sum_list (map length (columns ch)) \<le> length (columns ch) * card (items g ?n)"
    by (rule sum_list_length_bound)
  with inv show ?thesis by (simp add: chart_size_def chart_inv_def)
qed

lemma closure_inv:
  assumes inv: "chart_inv g tokens ch" and i: "i \<le> length tokens"
    and ls: "\<And>xs. set (ls xs) = set xs"
  shows "\<exists>ch' D. closure ls g tokens i ch = Some (Inr ch')
     \<and> extends ch D ch' \<and> chart_inv g tokens ch'
     \<and> (\<forall>k x. (k, x) \<in> D \<longrightarrow> k = i \<or> k = i + 1)
     \<and> closed_col g tokens ch' i"
  using inv
proof (induction "(length tokens + 1) * card (items g (length tokens)) - chart_size ch"
    arbitrary: ch rule: less_induct)
  case less
  let ?B = "(length tokens + 1) * card (items g (length tokens))"
  from pass_inv [OF less.prems i ls] obtain ch1 D1 where
    r: "pass ls g tokens i ch = Inr (ch1, ch1 \<noteq> ch)"
    and e1: "extends ch D1 ch1" and inv1: "chart_inv g tokens ch1"
    and tg1: "\<forall>k x. (k, x) \<in> D1 \<longrightarrow> k = i \<or> k = i + 1"
    and cl1: "ch1 = ch \<longrightarrow> closed_col g tokens ch i" by blast
  show ?case
  proof (cases "ch1 = ch")
    case True
    with r have "closure ls g tokens i ch = Some (Inr ch)"
      by (simp add: closure.simps [of ls g tokens i ch])
    moreover have "extends ch {} ch" by (rule extends_refl)
    moreover have "\<forall>k x. (k, x) \<in> ({}::(nat \<times> State) set) \<longrightarrow> k = i \<or> k = i + 1" by simp
    moreover have "closed_col g tokens ch i" using cl1 True by simp
    ultimately show ?thesis using less.prems by (intro exI conjI)
  next
    case False
    with e1 have "chart_size ch < chart_size ch1" by (rule extends_size_less)
    moreover have "chart_size ch1 \<le> ?B" using inv1 by (rule chart_size_bound)
    ultimately have "?B - chart_size ch1 < ?B - chart_size ch" by simp
    from less.hyps [OF this inv1] obtain ch' D where
      r': "closure ls g tokens i ch1 = Some (Inr ch')"
      and e2: "extends ch1 D ch'" and inv': "chart_inv g tokens ch'"
      and tg: "\<forall>k x. (k, x) \<in> D \<longrightarrow> k = i \<or> k = i + 1"
      and cl: "closed_col g tokens ch' i" by blast
    have "closure ls g tokens i ch = Some (Inr ch')"
      using r False r' by (simp add: closure.simps [of ls g tokens i ch])
    moreover have "extends ch (D1 \<union> D) ch'" using e1 e2 by (rule extends_trans)
    moreover have "\<forall>k x. (k, x) \<in> D1 \<union> D \<longrightarrow> k = i \<or> k = i + 1" using tg1 tg by blast
    ultimately show ?thesis using inv' cl by (intro exI conjI)
  qed
qed


lemma conseq_cong:
  "C (nat (State.start st)) = C' (nat (State.start st))
   \<Longrightarrow> conseq g tokens C i st = conseq g tokens C' i st"
  unfolding conseq_def by presburger

lemma closed_col_preserved:
  assumes inv: "chart_inv g tokens ch" and e: "extends ch D ch'"
    and tg: "\<forall>k x. (k, x) \<in> D \<longrightarrow> k = i \<or> k = i + 1"
    and ki: "k < i" and i: "i \<le> length tokens" and cl: "closed_col g tokens ch k"
  shows "closed_col g tokens ch' k"
proof -
  have len: "length (columns ch) = length tokens + 1" using inv by (rule chart_inv_length)
  have same: "cols ch' j = cols ch j" if "j \<le> k" for j
  proof -
    have "j < length (columns ch)" using that ki i len by simp
    from extends_cols [OF e this] have "cols ch' j = cols ch j \<union> {x. (j, x) \<in> D}" .
    moreover have "{x. (j, x) \<in> D} = {}" using tg that ki by auto
    ultimately show ?thesis by simp
  qed
  show ?thesis
    unfolding closed_col_def
  proof (intro ballI allI impI)
    fix st j x assume st: "st \<in> cols ch' k" and jx: "(j, x) \<in> conseq g tokens (cols ch') k st"
    from st same [of k] have st0: "st \<in> cols ch k" by simp
    have kn: "k \<le> length tokens" using ki i by simp
    have "earley g tokens k st" using inv kn st0 by (rule chart_inv_cols)
    from earley_facts [OF this] have "state_inv k st" by simp
    then have "nat (State.start st) \<le> k" unfolding state_inv_def by linarith
    then have "cols ch' (nat (State.start st)) = cols ch (nat (State.start st))" by (rule same)
    then have "conseq g tokens (cols ch') k st = conseq g tokens (cols ch) k st"
      by (rule conseq_cong)
    with jx have jx0: "(j, x) \<in> conseq g tokens (cols ch) k st" by simp
    with cl st0 have x0: "x \<in> cols ch j" unfolding closed_col_def by blast
    from conseq_target [OF jx0] kn have "j \<le> length tokens" by auto
    then have "j < length (columns ch)" using len by simp
    from extends_cols_mono [OF e this] x0 show "x \<in> cols ch' j" by blast
  qed
qed

lemma columns_loop_inv:
  assumes inv: "chart_inv g tokens ch" and ls: "\<And>xs. set (ls xs) = set xs"
    and cl: "\<forall>k < i. closed_col g tokens ch k"
  shows "\<exists>ch' D. columns_loop ls g tokens [i ..< length tokens + 1] ch = Some (Inr ch')
     \<and> extends ch D ch' \<and> chart_inv g tokens ch'
     \<and> (\<forall>k \<le> length tokens. closed_col g tokens ch' k)"
  using inv cl
proof (induction "length tokens + 1 - i" arbitrary: i ch)
  case 0
  then have "[i ..< length tokens + 1] = []" by simp
  then have "columns_loop ls g tokens [i ..< length tokens + 1] ch = Some (Inr ch)" by simp
  moreover have "extends ch {} ch" by (rule extends_refl)
  moreover have "\<forall>k \<le> length tokens. closed_col g tokens ch k" using 0 by auto
  ultimately show ?case using "0.prems"(1) by (intro exI conjI)
next
  case (Suc m)
  then have i: "i \<le> length tokens" by simp
  then have upt: "[i ..< length tokens + 1] = i # [Suc i ..< length tokens + 1]"
    by (simp add: upt_conv_Cons)
  from closure_inv [OF Suc.prems(1) i ls] obtain ch1 D1 where
    r1: "closure ls g tokens i ch = Some (Inr ch1)"
    and e1: "extends ch D1 ch1" and inv1: "chart_inv g tokens ch1"
    and tg1: "\<forall>k x. (k, x) \<in> D1 \<longrightarrow> k = i \<or> k = i + 1"
    and cl1: "closed_col g tokens ch1 i" by blast
  have cl1': "\<forall>k < Suc i. closed_col g tokens ch1 k"
  proof (intro allI impI)
    fix k assume "k < Suc i"
    then consider "k = i" | "k < i" by linarith
    then show "closed_col g tokens ch1 k"
    proof cases
      case 1
      with cl1 show ?thesis by simp
    next
      case 2
      with Suc.prems(2) have "closed_col g tokens ch k" by simp
      with Suc.prems(1) e1 tg1 2 i show ?thesis by (rule closed_col_preserved)
    qed
  qed
  have m: "m = length tokens + 1 - Suc i" using Suc.hyps(2) by simp
  from Suc.hyps(1) [OF m inv1 cl1'] obtain ch' D where
    r2: "columns_loop ls g tokens [Suc i ..< length tokens + 1] ch1 = Some (Inr ch')"
    and e2: "extends ch1 D ch'" and inv': "chart_inv g tokens ch'"
    and cl': "\<forall>k \<le> length tokens. closed_col g tokens ch' k" by blast
  have "columns_loop ls g tokens [i ..< length tokens + 1] ch = Some (Inr ch')"
    unfolding upt using r1 r2 by simp
  moreover have "extends ch (D1 \<union> D) ch'" using e1 e2 by (rule extends_trans)
  ultimately show ?case using inv' cl' by (intro exI conjI)
qed

lemma seed_extends:
  assumes "0 < length (columns ch)"
  shows "\<exists>ch'. seed ps ch = Inr ch'
     \<and> extends ch ((\<lambda>p. (0, \<lparr>production = p, dot = 0, start = 0\<rparr>)) ` set ps) ch'"
  using assms
proof (induction ps arbitrary: ch)
  case Nil
  then show ?case by (simp add: extends_refl)
next
  case (Cons p ps)
  let ?f = "\<lambda>p. (0::nat, \<lparr>production = p, dot = 0, start = 0\<rparr>)"
  from add_flag [OF Cons.prems] obtain ch1 where
    a: "add (int 0) \<lparr>production = p, dot = 0, start = 0\<rparr> ch = Inr (ch1, ch1 \<noteq> ch)"
    and e1: "extends ch {?f p} ch1" by blast
  have len1: "0 < length (columns ch1)" using e1 Cons.prems by (simp add: extends_length)
  from Cons.IH [OF len1] obtain ch' where
    r: "seed ps ch1 = Inr ch'" and e2: "extends ch1 (?f ` set ps) ch'" by blast
  have "extends ch ({?f p} \<union> ?f ` set ps) ch'" using e1 e2 by (rule extends_trans)
  then have e: "extends ch (?f ` set (p # ps)) ch'" by simp
  have "seed (p # ps) ch = Inr ch'" using a r by simp
  with e show ?case by blast
qed

lemma chart_inv_new: "chart_inv g tokens (new_Chart (length tokens))"
proof -
  have "replicate (length tokens + 1) ([]::State list) ! k = []" if "k \<le> length tokens" for k
    using that by (simp del: replicate.simps replicate_Suc)
  then show ?thesis by (simp add: chart_inv_def new_Chart_def del: replicate.simps replicate_Suc)
qed

lemma earley_complete:
  assumes inv: "chart_inv g tokens ch"
    and cl: "\<forall>k \<le> length tokens. closed_col g tokens ch k"
    and seeds: "\<forall>p \<in> set (productions_for g (Grammar.start g)).
        \<lparr>production = p, dot = 0, start = 0\<rparr> \<in> cols ch 0"
    and e: "earley g tokens k x"
  shows "x \<in> cols ch k"
  using e
proof (induction rule: earley.induct)
  case (Seed p)
  with seeds show ?case by blast
next
  case (Predict i st nt p)
  from earley_facts [OF Predict.hyps(1)] have i: "i \<le> length tokens" by simp
  have "(i, \<lparr>production = p, dot = 0, start = int i\<rparr>) \<in> conseq g tokens (cols ch) i st"
    using Predict.hyps(2,3) by (simp add: conseq_def)
  with cl i Predict.IH show ?case unfolding closed_col_def by blast
next
  case (Complete i st j prev)
  from earley_facts [OF Complete.hyps(1)] have i: "i \<le> length tokens" by simp
  have "nat (State.start st) = j" using Complete.hyps(3) by simp
  then have "(i, advance prev) \<in> conseq g tokens (cols ch) i st"
    using Complete.hyps(2,5) Complete.IH(2) by (simp add: conseq_def)
  with cl i Complete.IH(1) show ?case unfolding closed_col_def by blast
next
  case (Scan i st t)
  from earley_facts [OF Scan.hyps(1)] have i: "i \<le> length tokens" by simp
  have "(i + 1, advance st) \<in> conseq g tokens (cols ch) i st"
    using Scan.hyps(2,3,4) by (simp add: conseq_def)
  with cl i Scan.IH show ?case unfolding closed_col_def by blast
qed

lemma fill_chart_earley:
  assumes ls: "\<And>xs. set (ls xs) = set xs"
  shows "\<exists>ch. fill_chart ls g tokens = Some (Inr ch) \<and> chart_inv g tokens ch
     \<and> (\<forall>k \<le> length tokens. cols ch k = {x. earley g tokens k x})"
proof -
  let ?n = "length tokens"
  let ?f = "\<lambda>p. (0::nat, \<lparr>production = p, dot = 0, start = 0\<rparr>)"
  let ?ps = "productions_for g (Grammar.start g)"
  have l0: "0 < length (columns (new_Chart ?n))" by (simp add: new_Chart_def)
  from seed_extends [OF l0, of ?ps] obtain ch0 where
    r0: "seed ?ps (new_Chart ?n) = Inr ch0" and e0: "extends (new_Chart ?n) (?f ` set ?ps) ch0"
    by blast
  have inv0: "chart_inv g tokens ch0" using chart_inv_new e0
  proof (rule chart_inv_extends)
    fix k x assume "(k, x) \<in> ?f ` set ?ps"
    then show "earley g tokens k x" by (auto intro: earley.Seed)
  qed
  have seeds0: "\<lparr>production = p, dot = 0, start = 0\<rparr> \<in> cols ch0 0" if "p \<in> set ?ps" for p
    using extends_cols [OF e0 l0] that by auto
  have "\<forall>k < (0::nat). closed_col g tokens ch0 k" by simp
  from columns_loop_inv [OF inv0 ls this] obtain ch D where
    r: "columns_loop ls g tokens [0 ..< ?n + 1] ch0 = Some (Inr ch)"
    and e: "extends ch0 D ch" and inv: "chart_inv g tokens ch"
    and cl: "\<forall>k \<le> ?n. closed_col g tokens ch k" by blast
  have l1: "0 < length (columns ch0)" using inv0 by (simp add: chart_inv_def)
  have seeds: "\<forall>p \<in> set ?ps. \<lparr>production = p, dot = 0, start = 0\<rparr> \<in> cols ch 0"
    using seeds0 extends_cols_mono [OF e l1] by blast
  have "cols ch k = {x. earley g tokens k x}" if k: "k \<le> ?n" for k
  proof (intro set_eqI iffI)
    fix x assume "x \<in> cols ch k"
    with inv k have "earley g tokens k x" by (rule chart_inv_cols)
    then show "x \<in> {x. earley g tokens k x}" by simp
  next
    fix x assume "x \<in> {x. earley g tokens k x}"
    then have "earley g tokens k x" by simp
    with inv cl seeds show "x \<in> cols ch k" by (rule earley_complete)
  qed
  moreover have "fill_chart ls g tokens = Some (Inr ch)"
    using r0 r by (simp add: fill_chart_def)
  ultimately show ?thesis using inv by blast
qed


section \<open>The result of a parse and the Earley items\<close>


lemma listing_ok_set: "listing_ok ls \<Longrightarrow> set (ls xs) = set xs"
  unfolding listing_ok_def by (metis set_mset_mset)

lemma sum_list_map_mset:
  fixes f :: "'a \<Rightarrow> int"
  assumes "mset xs = mset ys"
  shows "sum_list (map f xs) = sum_list (map f ys)"
proof -
  have "sum_list (map f xs) = sum_mset (image_mset f (mset xs))"
    by (metis mset_map sum_mset_sum_list)
  also have "\<dots> = sum_mset (image_mset f (mset ys))" using assms by simp
  also have "\<dots> = sum_list (map f ys)" by (metis mset_map sum_mset_sum_list)
  finally show ?thesis .
qed

lemma sum_list_indicator:
  "sum_list (map (\<lambda>x. if Q x then 1 else 0) xs) = int (length (filter Q xs))"
  by (induction xs) auto

lemma count_accepting:
  assumes "listing_ok ls" and "distinct col"
  shows "sum_list (map (\<lambda>st. if Q st then 1 else 0) (ls col)) = int (card {st \<in> set col. Q st})"
proof -
  have "mset (ls col) = mset col" using assms(1) by (simp add: listing_ok_def)
  then have "sum_list (map (\<lambda>st. if Q st then 1 else (0::int)) (ls col))
      = sum_list (map (\<lambda>st. if Q st then 1 else 0) col)"
    by (rule sum_list_map_mset)
  also have "\<dots> = int (length (filter Q col))" by (rule sum_list_indicator)
  finally have a: "sum_list (map (\<lambda>st. if Q st then 1 else 0) (ls col)) = int (length (filter Q col))" .
  have "distinct (filter Q col)" using assms(2) by simp
  then have "card (set (filter Q col)) = length (filter Q col)" by (rule distinct_card)
  moreover have "set (filter Q col) = {st \<in> set col. Q st}" by auto
  ultimately have "length (filter Q col) = card {st \<in> set col. Q st}" by simp
  with a show ?thesis by simp
qed

lemma parse_fill_chart:
  assumes ok: "listing_ok ls"
  shows "\<exists>ch. fill_chart ls g tokens = Some (Inr ch) \<and> chart_inv g tokens ch
     \<and> (\<forall>k \<le> length tokens. cols ch k = {x. earley g tokens k x})
     \<and> parse ls g tokens
         = Some (Inr (int (card {st \<in> set (columns ch ! length tokens). accepting g st})))"
proof -
  have ls: "\<And>xs. set (ls xs) = set xs" using ok by (rule listing_ok_set)
  from fill_chart_earley [OF ls] obtain ch where
    f: "fill_chart ls g tokens = Some (Inr ch)" and inv: "chart_inv g tokens ch"
    and c: "\<forall>k \<le> length tokens. cols ch k = {x. earley g tokens k x}" by blast
  have n: "length tokens < length (columns ch)" using inv by (simp add: chart_inv_def)
  have d: "distinct (columns ch ! length tokens)" using inv by (simp add: chart_inv_def)
  have "parse ls g tokens = Some (Inr (sum_list (map (\<lambda>st. if accepting g st then 1 else 0)
      (ls (columns ch ! length tokens)))))"
    using f n by (simp add: parse_def)
  also have "sum_list (map (\<lambda>st. if accepting g st then 1 else 0) (ls (columns ch ! length tokens)))
      = int (card {st \<in> set (columns ch ! length tokens). accepting g st})"
    using ok d by (rule count_accepting)
  finally show ?thesis using f inv c by blast
qed

lemma parse_earley:
  assumes ok: "listing_ok ls"
  shows "parse ls g tokens
     = Some (Inr (int (card {st. earley g tokens (length tokens) st \<and> accepting g st})))"
proof -
  from parse_fill_chart [OF ok] obtain ch where
    c: "\<forall>k \<le> length tokens. cols ch k = {x. earley g tokens k x}"
    and p: "parse ls g tokens
         = Some (Inr (int (card {st \<in> set (columns ch ! length tokens). accepting g st})))"
    by blast
  from c have "set (columns ch ! length tokens) = {x. earley g tokens (length tokens) x}"
    by (simp add: cols_def)
  then have "{st \<in> set (columns ch ! length tokens). accepting g st}
      = {st. earley g tokens (length tokens) st \<and> accepting g st}" by simp
  with p show ?thesis by simp
qed

lemma parse_listing_indep:
  assumes "listing_ok ls" and "listing_ok ls'"
  shows "parse ls g tokens = parse ls' g tokens"
  using parse_earley [OF assms(1)] parse_earley [OF assms(2)] by simp

lemma listing_ok_id: "listing_ok (\<lambda>xs. xs)"
  by (simp add: listing_ok_def)

lemma listing_ok_rev: "listing_ok rev"
  by (simp add: listing_ok_def)

section \<open>Bounds, termination and the accepting items\<close>


lemma conseq_bounds:
  assumes inv: "state_inv i st"
    and C: "\<And>prev. prev \<in> C (nat (State.start st)) \<Longrightarrow> state_inv (nat (State.start st)) prev"
    and kx: "(k, x) \<in> conseq g tokens C i st"
  shows "state_inv k x"
proof -
  from inv have nn: "0 \<le> dot st" and s0: "0 \<le> State.start st" and si: "State.start st \<le> int i"
    by (simp_all add: state_inv_def)
  from next_symbol_nonneg [OF nn] obtain nxt where nxt: "next_symbol st = Inr nxt"
    by (auto split: if_splits)
  show ?thesis
  proof (cases nxt)
    case None
    with kx nxt obtain prev where p: "prev \<in> C (nat (State.start st))"
      "next_symbol prev = Inr (Some (NT (lhs (production st))))" and k: "k = i" and x: "x = advance prev"
      by (auto simp: conseq_def)
    have "nat (State.start st) \<le> i" using si by linarith
    with C [OF p(1)] p(2) have "state_inv i (advance prev)" by (rule state_inv_advance)
    with k x show ?thesis by simp
  next
    case (Some y)
    show ?thesis
    proof (cases y)
      case (NT nt)
      with kx nxt Some obtain p where "k = i" "x = \<lparr>production = p, dot = 0, start = int i\<rparr>"
        by (auto simp: conseq_def)
      then show ?thesis by (simp add: state_inv_def)
    next
      case (Tok t)
      with kx nxt Some have k: "k = i + 1" and x: "x = advance st"
        by (auto simp: conseq_def split: if_splits)
      from inv nxt Some Tok have "state_inv (i + 1) (advance st)"
        by (auto intro: state_inv_advance)
      with k x show ?thesis by simp
    qed
  qed
qed

lemma chart_bounds_extends:
  assumes cb: "chart_bounds ch" and e: "extends ch D ch'"
    and D: "\<And>k x. (k, x) \<in> D \<Longrightarrow> state_inv k x"
  shows "chart_bounds ch'"
  unfolding chart_bounds_def
proof (intro allI impI ballI)
  fix k x assume "k < length (columns ch')" and x: "x \<in> set (columns ch' ! k)"
  then have k: "k < length (columns ch)" using e by (simp add: extends_length)
  from x have "x \<in> cols ch' k" by (simp add: cols_def)
  with extends_cols [OF e k] have "x \<in> cols ch k \<or> (k, x) \<in> D" by blast
  then show "state_inv k x"
  proof
    assume "x \<in> cols ch k"
    with cb k show ?thesis by (simp add: chart_bounds_def cols_def)
  next
    assume "(k, x) \<in> D"
    then show ?thesis by (rule D)
  qed
qed

lemma seed_bounds:
  assumes "chart_bounds ch" and "0 < length (columns ch)" and "seed ps ch = Inr ch'"
  shows "chart_bounds ch'"
proof -
  from seed_extends [OF assms(2), of ps] assms(3) have
    e: "extends ch ((\<lambda>p. (0, \<lparr>production = p, dot = 0, start = 0\<rparr>)) ` set ps) ch'" by simp
  from assms(1) e show ?thesis
  proof (rule chart_bounds_extends)
    fix k :: nat and x
    assume "(k, x) \<in> (\<lambda>p. (0, \<lparr>production = p, dot = 0, start = 0\<rparr>)) ` set ps"
    then show "state_inv k x" by (auto simp: state_inv_def)
  qed
qed

lemma process_bounds:
  assumes cb: "chart_bounds ch" and len: "length (columns ch) = length tokens + 1"
    and i: "i \<le> length tokens" and st: "st \<in> set (columns ch ! i)"
    and ok: "listing_ok ls"
    and r: "process ls g tokens i st (ch, c) = Inr (ch', c')"
  shows "chart_bounds ch'"
proof -
  have ls: "\<And>xs. set (ls xs) = set xs" using ok by (rule listing_ok_set)
  have il: "i < length (columns ch)" using len i by simp
  with cb st have inv: "state_inv i st" by (simp add: chart_bounds_def)
  then have dot: "0 \<le> dot st" and s0: "0 \<le> State.start st" and si: "State.start st \<le> int i"
    by (simp_all add: state_inv_def)
  have jl: "nat (State.start st) < length (columns ch)" using si il by linarith
  have pinv: "state_inv (nat (State.start st)) prev" if "prev \<in> cols ch (nat (State.start st))" for prev
    using cb jl that by (simp add: chart_bounds_def cols_def)
  have prevs: "\<forall>prev \<in> cols ch (nat (State.start st)). 0 \<le> dot prev"
    using pinv by (auto simp: state_inv_def)
  from process_extends [OF len i dot s0 si prevs ls, of g c] r
  have e: "extends ch (conseq g tokens (cols ch) i st) ch'" by simp
  from cb e show ?thesis
  proof (rule chart_bounds_extends)
    fix k x assume "(k, x) \<in> conseq g tokens (cols ch) i st"
    with inv pinv show "state_inv k x" by (rule conseq_bounds)
  qed
qed

lemma chart_inv_bounds:
  assumes "chart_inv g tokens ch"
  shows "chart_bounds ch"
  unfolding chart_bounds_def
proof (intro allI impI ballI)
  fix k x assume "k < length (columns ch)" and x: "x \<in> set (columns ch ! k)"
  with assms have "k \<le> length tokens" by (simp add: chart_inv_def)
  with assms x have "earley g tokens k x" by (simp add: chart_inv_def)
  from earley_facts [OF this] show "state_inv k x" by simp
qed

lemma fill_chart_bounds:
  assumes "listing_ok ls" and "fill_chart ls g tokens = Some (Inr ch)"
  shows "chart_bounds ch"
proof -
  from parse_fill_chart [OF assms(1), of g tokens] assms(2) have "chart_inv g tokens ch" by auto
  then show ?thesis by (rule chart_inv_bounds)
qed

lemma chart_bounds_new: "chart_bounds (new_Chart n)"
proof -
  have "replicate (n + 1) ([]::State list) ! k = []" if "k < n + 1" for k
    using that by (simp del: replicate.simps replicate_Suc)
  then show ?thesis
    by (simp add: chart_bounds_def new_Chart_def del: replicate.simps replicate_Suc)
qed

lemma closure_final_pass:
  assumes inv: "chart_inv g tokens ch" and i: "i \<le> length tokens"
    and ls: "\<And>xs. set (ls xs) = set xs"
  shows "\<exists>ch'. closure ls g tokens i ch = Some (Inr ch')
     \<and> pass ls g tokens i ch' = Inr (ch', False)"
  using inv
proof (induction "(length tokens + 1) * card (items g (length tokens)) - chart_size ch"
    arbitrary: ch rule: less_induct)
  case less
  let ?B = "(length tokens + 1) * card (items g (length tokens))"
  from pass_inv [OF less.prems i ls] obtain ch1 D1 where
    r: "pass ls g tokens i ch = Inr (ch1, ch1 \<noteq> ch)"
    and e1: "extends ch D1 ch1" and inv1: "chart_inv g tokens ch1" by blast
  show ?case
  proof (cases "ch1 = ch")
    case True
    with r have "closure ls g tokens i ch = Some (Inr ch)"
      by (simp add: closure.simps [of ls g tokens i ch])
    moreover from r True have "pass ls g tokens i ch = Inr (ch, False)" by simp
    ultimately show ?thesis by blast
  next
    case False
    with e1 have "chart_size ch < chart_size ch1" by (rule extends_size_less)
    moreover have "chart_size ch1 \<le> ?B" using inv1 by (rule chart_size_bound)
    ultimately have "?B - chart_size ch1 < ?B - chart_size ch" by simp
    from less.hyps [OF this inv1] obtain ch' where
      r': "closure ls g tokens i ch1 = Some (Inr ch')"
      and p: "pass ls g tokens i ch' = Inr (ch', False)" by blast
    have "closure ls g tokens i ch = Some (Inr ch')"
      using r False r' by (simp add: closure.simps [of ls g tokens i ch])
    with p show ?thesis by blast
  qed
qed

lemma productions_for_lhs: "p \<in> set (productions_for g nt) \<Longrightarrow> lhs p = nt"
  by (auto simp: productions_for_def)

lemma accepting_items_bound:
  "card {st. earley g tokens n st \<and> accepting g st} \<le> length (productions_for g (Grammar.start g))"
proof -
  let ?ps = "productions_for g (Grammar.start g)"
  let ?f = "\<lambda>p. \<lparr>production = p, dot = int (length (rhs p)), start = 0\<rparr>"
  have "{st. earley g tokens n st \<and> accepting g st} \<subseteq> ?f ` set ?ps"
  proof
    fix st assume "st \<in> {st. earley g tokens n st \<and> accepting g st}"
    then have e: "earley g tokens n st" and a: "accepting g st" by simp_all
    from earley_facts [OF e] have inv: "state_inv n st"
      and "production st \<in> grammar_productions g" by simp_all
    then obtain nt where nt: "production st \<in> set (productions_for g nt)"
      by (auto simp: grammar_productions_def)
    then have "lhs (production st) = nt" by (rule productions_for_lhs)
    with a nt have p: "production st \<in> set ?ps" by (simp add: accepting_def)
    from a inv have "dot st = int (length (rhs (production st)))" and "State.start st = 0"
      by (simp_all add: accepting_def is_complete_def state_inv_def)
    then have "st = ?f (production st)" by simp
    with p show "st \<in> ?f ` set ?ps" by blast
  qed
  then have "card {st. earley g tokens n st \<and> accepting g st} \<le> card (?f ` set ?ps)"
    by (simp add: card_mono)
  also have "\<dots> \<le> card (set ?ps)" by (simp add: card_image_le)
  also have "\<dots> \<le> length ?ps" by (rule card_length)
  finally show ?thesis .
qed

lemma length_productions_for:
  "length (productions_for g nt) = (case rules g nt of None \<Rightarrow> 0 | Some alts \<Rightarrow> length alts)"
  by (simp add: productions_for_def split: option.splits)




section \<open>The sample grammar\<close>

lemma sample_they_can_fish_in_rivers_in_December:
  "parse (\<lambda>xs. xs) grammar [''they'', ''can'', ''fish'', ''in'', ''rivers'', ''in'', ''December'']
     = Some (Inr 1)"
  by code_simp

lemma sample_they_can_fish:
  "parse (\<lambda>xs. xs) grammar [''they'', ''can'', ''fish''] = Some (Inr 1)"
  by code_simp

lemma sample_fish_they_can:
  "parse (\<lambda>xs. xs) grammar [''fish'', ''they'', ''can''] = Some (Inr 1)"
  by code_simp

lemma sample_empty: "parse (\<lambda>xs. xs) grammar [] = Some (Inr 0)"
  by code_simp

lemma sample_zzz: "parse (\<lambda>xs. xs) grammar [''zzz''] = Some (Inr 0)"
  by code_simp

lemma sample_empty_rhs:
  "parse (\<lambda>xs. xs) \<lparr>rules = [S \<mapsto> [[]]], start = S\<rparr> [] = Some (Inr 1)"
  by code_simp

section \<open>The claims\<close>

text \<open>Claim C1, amended. With the sample grammar and start symbol \<open>S\<close>, whatever the order
  in which the sets are enumerated, \<^verbatim>\<open>parse\<close> returns 1 for "they can fish in rivers in
  December", for "they can fish" and also for "fish they can" (\<open>S \<rightarrow> NP VP\<close>, \<open>NP \<rightarrow> N\<close>,
  \<open>N \<rightarrow> fish\<close>, \<open>VP \<rightarrow> V NP\<close>, \<open>V \<rightarrow> they\<close>, \<open>N \<rightarrow> can\<close>), and returns 0 for the empty
  input and for "zzz".\<close>

theorem sample_sentences:
  assumes "listing_ok ls"
  shows "parse ls grammar [''they'', ''can'', ''fish'', ''in'', ''rivers'', ''in'', ''December'']
       = Some (Inr 1)
     \<and> parse ls grammar [''they'', ''can'', ''fish''] = Some (Inr 1)
     \<and> parse ls grammar [''fish'', ''they'', ''can''] = Some (Inr 1)
     \<and> parse ls grammar [] = Some (Inr 0)
     \<and> parse ls grammar [''zzz''] = Some (Inr 0)"
  using parse_listing_indep [OF assms listing_ok_id, of grammar]
    sample_they_can_fish_in_rivers_in_December sample_they_can_fish sample_fish_they_can
    sample_empty sample_zzz
  by simp

theorem sample_sentences_witness:
  "listing_ok rev
   \<and> parse rev grammar [''they'', ''can'', ''fish'', ''in'', ''rivers'', ''in'', ''December'']
       = Some (Inr 1)
   \<and> parse rev grammar [''they'', ''can'', ''fish''] = Some (Inr 1)
   \<and> parse rev grammar [''fish'', ''they'', ''can''] = Some (Inr 1)
   \<and> parse rev grammar [] = Some (Inr 0)
   \<and> parse rev grammar [''zzz''] = Some (Inr 0)"
  using sample_sentences [of rev] listing_ok_rev by simp

text \<open>The claim as stated fails: "fish they can" is not rejected.\<close>

theorem fish_they_can_not_rejected:
  "parse (\<lambda>xs. xs) grammar [''fish'', ''they'', ''can''] = Some (Inr 1)
   \<and> parse (\<lambda>xs. xs) grammar [''fish'', ''they'', ''can''] \<noteq> Some (Inr 0)"
  using sample_fish_they_can by simp

text \<open>Claim C2. \<^verbatim>\<open>parse\<close> returns the number of states of column \<open>n\<close> of the closed
  chart whose production has the start symbol as left-hand side, whose origin is 0 and which
  are complete; the number is nonzero exactly when the column holds such a state.\<close>

theorem parse_counts_accepting_items:
  assumes "listing_ok ls"
  shows "\<exists>ch c. fill_chart ls g tokens = Some (Inr ch)
     \<and> parse ls g tokens = Some (Inr c)
     \<and> c = int (card {st \<in> set (columns ch ! length tokens).
            lhs (production st) = Grammar.start g \<and> State.start st = 0 \<and> is_complete st})
     \<and> (c \<noteq> 0 \<longleftrightarrow> (\<exists>st \<in> set (columns ch ! length tokens).
            lhs (production st) = Grammar.start g \<and> State.start st = 0 \<and> is_complete st))"
proof -
  from parse_fill_chart [OF assms, of g tokens] obtain ch where
    f: "fill_chart ls g tokens = Some (Inr ch)"
    and p: "parse ls g tokens
         = Some (Inr (int (card {st \<in> set (columns ch ! length tokens). accepting g st})))"
    by blast
  let ?A = "{st \<in> set (columns ch ! length tokens).
      lhs (production st) = Grammar.start g \<and> State.start st = 0 \<and> is_complete st}"
  have A: "{st \<in> set (columns ch ! length tokens). accepting g st} = ?A"
    by (simp add: accepting_def)
  have "finite ?A" by simp
  then have "card ?A \<noteq> 0 \<longleftrightarrow> ?A \<noteq> {}" by (simp only: card_eq_0_iff) simp
  then have "int (card ?A) \<noteq> 0 \<longleftrightarrow> (\<exists>st \<in> set (columns ch ! length tokens).
      lhs (production st) = Grammar.start g \<and> State.start st = 0 \<and> is_complete st)"
    by auto
  with f p A show ?thesis by simp
qed

theorem parse_counts_accepting_items_witness:
  "listing_ok (\<lambda>xs. xs)
   \<and> parse (\<lambda>xs. xs) grammar [''they'', ''can'', ''fish''] = Some (Inr 1)
   \<and> (\<exists>ch. fill_chart (\<lambda>xs. xs) grammar [''they'', ''can'', ''fish''] = Some (Inr ch)
        \<and> (1::int) = int (card {st \<in> set (columns ch ! length [''they'', ''can'', ''fish'']).
            lhs (production st) = Grammar.start grammar \<and> State.start st = 0 \<and> is_complete st}))"
  using parse_counts_accepting_items [of "\<lambda>xs. xs" grammar "[''they'', ''can'', ''fish'']"]
    listing_ok_id sample_they_can_fish
  by auto

text \<open>Claim C3, amended. For the sample grammar the ambiguous sentence "they can fish in
  rivers in December" yields exactly one accepting state in the last column: \<^verbatim>\<open>parse\<close>
  returns 1, whatever the order in which the sets are enumerated.\<close>

theorem ambiguous_sentence_single_item:
  assumes "listing_ok ls"
  shows "parse ls grammar [''they'', ''can'', ''fish'', ''in'', ''rivers'', ''in'', ''December'']
     = Some (Inr 1)"
  using parse_listing_indep [OF assms listing_ok_id, of grammar]
    sample_they_can_fish_in_rivers_in_December
  by simp

theorem ambiguous_sentence_single_item_witness:
  "listing_ok rev
   \<and> parse rev grammar [''they'', ''can'', ''fish'', ''in'', ''rivers'', ''in'', ''December'']
       = Some (Inr 1)"
  using ambiguous_sentence_single_item [of rev] listing_ok_rev by simp

text \<open>The claim as stated fails: the count is not greater than 1.\<close>

theorem ambiguous_sentence_count_not_above_one:
  "parse (\<lambda>xs. xs) grammar [''they'', ''can'', ''fish'', ''in'', ''rivers'', ''in'', ''December'']
     = Some (Inr 1)
   \<and> \<not> (\<exists>c. parse (\<lambda>xs. xs) grammar
          [''they'', ''can'', ''fish'', ''in'', ''rivers'', ''in'', ''December''] = Some (Inr c)
        \<and> 1 < c)"
  using sample_they_can_fish_in_rivers_in_December by simp

text \<open>Claim C4. \<^verbatim>\<open>parse\<close> returns for every grammar and every input; and from every chart
  of Earley items the loop \<^verbatim>\<open>while changed\<close> of a column ends, with a chart on which a
  further pass adds nothing.\<close>

theorem parse_terminates:
  assumes "listing_ok ls"
  shows "(\<exists>r. parse ls g tokens = Some r)
     \<and> (\<forall>i ch. i \<le> length tokens \<and> chart_inv g tokens ch \<longrightarrow>
          (\<exists>ch'. closure ls g tokens i ch = Some (Inr ch')
             \<and> pass ls g tokens i ch' = Inr (ch', False)))"
proof
  show "\<exists>r. parse ls g tokens = Some r" using parse_earley [OF assms, of g tokens] by simp
next
  have ls: "\<And>xs. set (ls xs) = set xs" using assms by (rule listing_ok_set)
  show "\<forall>i ch. i \<le> length tokens \<and> chart_inv g tokens ch \<longrightarrow>
          (\<exists>ch'. closure ls g tokens i ch = Some (Inr ch')
             \<and> pass ls g tokens i ch' = Inr (ch', False))"
    using closure_final_pass [OF _ _ ls] by blast
qed

theorem parse_terminates_witness:
  "listing_ok (\<lambda>xs. xs)
   \<and> (\<exists>r. parse (\<lambda>xs. xs) grammar [''they'', ''can'', ''fish''] = Some r)
   \<and> (0::nat) \<le> length ([]::string list) \<and> chart_inv grammar [] (new_Chart 0)
   \<and> (\<exists>ch'. closure (\<lambda>xs. xs) grammar [] 0 (new_Chart 0) = Some (Inr ch')
        \<and> pass (\<lambda>xs. xs) grammar [] 0 ch' = Inr (ch', False))"
proof -
  have c: "chart_inv grammar [] (new_Chart 0)" using chart_inv_new [of grammar "[]"] by simp
  from parse_terminates [OF listing_ok_id, of grammar "[''they'', ''can'', ''fish'']"]
  have "\<exists>r. parse (\<lambda>xs. xs) grammar [''they'', ''can'', ''fish''] = Some r" by blast
  moreover from parse_terminates [OF listing_ok_id, of grammar "[]"] c
  have "\<exists>ch'. closure (\<lambda>xs. xs) grammar [] 0 (new_Chart 0) = Some (Inr ch')
        \<and> pass (\<lambda>xs. xs) grammar [] 0 ch' = Inr (ch', False)" by simp
  ultimately show ?thesis using listing_ok_id c by simp
qed


text \<open>Claim C7. The empty chart satisfies the bounds \<open>0 \<le> dot \<le> len(rhs)\<close> and
  \<open>0 \<le> origin \<le> i\<close> for every state of every column \<open>i\<close>; the seed step keeps them; the
  treatment of one state of column \<open>i\<close>, which is one run of the completer, the predictor or
  the scanner, keeps them; and the chart of a finished parse satisfies them.\<close>

theorem state_bounds_invariant:
  "chart_bounds (new_Chart n)
   \<and> (\<forall>ps ch ch'. chart_bounds ch \<and> 0 < length (columns ch) \<and> seed ps ch = Inr ch'
        \<longrightarrow> chart_bounds ch')
   \<and> (\<forall>ls g tokens i st ch c ch' c'.
        listing_ok ls \<and> chart_bounds ch \<and> length (columns ch) = length tokens + 1
        \<and> i \<le> length tokens \<and> st \<in> set (columns ch ! i)
        \<and> process ls g tokens i st (ch, c) = Inr (ch', c')
        \<longrightarrow> chart_bounds ch')
   \<and> (\<forall>ls g tokens ch. listing_ok ls \<and> fill_chart ls g tokens = Some (Inr ch)
        \<longrightarrow> chart_bounds ch)"
proof (intro conjI allI impI)
  show "chart_bounds (new_Chart n)" by (rule chart_bounds_new)
next
  fix ps ch ch'
  assume "chart_bounds ch \<and> 0 < length (columns ch) \<and> seed ps ch = Inr ch'"
  then show "chart_bounds ch'" using seed_bounds by blast
next
  fix ls g tokens i st ch c ch' c'
  assume "listing_ok ls \<and> chart_bounds ch \<and> length (columns ch) = length tokens + 1
        \<and> i \<le> length tokens \<and> st \<in> set (columns ch ! i)
        \<and> process ls g tokens i st (ch, c) = Inr (ch', c')"
  then show "chart_bounds ch'" using process_bounds by blast
next
  fix ls g tokens ch
  assume "listing_ok ls \<and> fill_chart ls g tokens = Some (Inr ch)"
  then show "chart_bounds ch" using fill_chart_bounds by blast
qed

theorem state_bounds_invariant_witness:
  "listing_ok (\<lambda>xs. xs)
   \<and> (\<exists>ch. fill_chart (\<lambda>xs. xs) grammar [''they'', ''can'', ''fish''] = Some (Inr ch)
        \<and> chart_bounds ch)
   \<and> chart_bounds (new_Chart 0) \<and> 0 < length (columns (new_Chart 0))
   \<and> (\<exists>ch'. seed (productions_for grammar S) (new_Chart 0) = Inr ch' \<and> chart_bounds ch')"
proof -
  from parse_fill_chart [OF listing_ok_id, of grammar "[''they'', ''can'', ''fish'']"]
  obtain ch where f: "fill_chart (\<lambda>xs. xs) grammar [''they'', ''can'', ''fish''] = Some (Inr ch)"
    by blast
  with state_bounds_invariant [of 0] listing_ok_id have "chart_bounds ch" by blast
  with f have a: "\<exists>ch. fill_chart (\<lambda>xs. xs) grammar [''they'', ''can'', ''fish''] = Some (Inr ch)
        \<and> chart_bounds ch" by blast
  have l: "0 < length (columns (new_Chart 0))" by (simp add: new_Chart_def)
  from seed_extends [OF l, of "productions_for grammar S"] obtain ch' where
    s: "seed (productions_for grammar S) (new_Chart 0) = Inr ch'" by blast
  from state_bounds_invariant [of 0] have b: "chart_bounds (new_Chart 0)" by blast
  with state_bounds_invariant [of 0] l s have "chart_bounds ch'" by blast
  with s have c: "\<exists>ch'. seed (productions_for grammar S) (new_Chart 0) = Inr ch' \<and> chart_bounds ch'"
    by blast
  from a b c l listing_ok_id show ?thesis by simp
qed

text \<open>Claim C8. \<^verbatim>\<open>parse\<close> returns a count, never an exception, for every grammar and every
  input; in the last column the scanner leaves the chart and the flag as they are; a state
  of a production with an empty right-hand side is complete and has no next symbol.\<close>

theorem parse_raises_nothing:
  assumes "listing_ok ls"
  shows "(\<exists>c. parse ls g tokens = Some (Inr c))
     \<and> scanner tokens (length tokens) st t (ch, changed) = Inr (ch, changed)
     \<and> is_complete \<lparr>production = \<lparr>lhs = nt, rhs = []\<rparr>, dot = 0, start = k\<rparr>
     \<and> next_symbol \<lparr>production = \<lparr>lhs = nt, rhs = []\<rparr>, dot = 0, start = k\<rparr> = Inr None"
proof (intro conjI)
  show "\<exists>c. parse ls g tokens = Some (Inr c)" using parse_earley [OF assms, of g tokens] by simp
  show "scanner tokens (length tokens) st t (ch, changed) = Inr (ch, changed)"
    by (simp add: scanner_def)
  show "is_complete \<lparr>production = \<lparr>lhs = nt, rhs = []\<rparr>, dot = 0, start = k\<rparr>"
    by (simp add: is_complete_def)
  show "next_symbol \<lparr>production = \<lparr>lhs = nt, rhs = []\<rparr>, dot = 0, start = k\<rparr> = Inr None"
    by (simp add: next_symbol_def is_complete_def)
qed

theorem parse_raises_nothing_witness:
  "listing_ok (\<lambda>xs. xs)
   \<and> parse (\<lambda>xs. xs) \<lparr>rules = [S \<mapsto> [[]]], start = S\<rparr> [] = Some (Inr 1)
   \<and> (\<exists>c. parse (\<lambda>xs. xs) \<lparr>rules = [S \<mapsto> [[]]], start = S\<rparr> [] = Some (Inr c))
   \<and> scanner [''zzz''] (length [''zzz''])
        \<lparr>production = \<lparr>lhs = P, rhs = [Tok ''in'']\<rparr>, dot = 0, start = 1\<rparr> ''in''
        (new_Chart 1, False) = Inr (new_Chart 1, False)"
  using parse_raises_nothing [OF listing_ok_id, of "\<lparr>rules = [S \<mapsto> [[]]], start = S\<rparr>" "[]"]
    parse_raises_nothing [OF listing_ok_id, of grammar "[''zzz'']"
      "\<lparr>production = \<lparr>lhs = P, rhs = [Tok ''in'']\<rparr>, dot = 0, start = 1\<rparr>" "''in''"
      "new_Chart 1" False]
    listing_ok_id sample_empty_rhs
  by simp

text \<open>Claim C9. The result of \<^verbatim>\<open>parse\<close> is a function of the grammar and the tokens alone:
  two calls return the same count, whatever the orders in which each of them enumerates the
  sets of the chart.\<close>

theorem parse_deterministic:
  assumes "listing_ok ls" and "listing_ok ls'"
  shows "\<exists>c. parse ls g tokens = Some (Inr c) \<and> parse ls' g tokens = Some (Inr c)"
  using parse_earley [OF assms(1), of g tokens] parse_earley [OF assms(2), of g tokens]
  by simp

theorem parse_deterministic_witness:
  "listing_ok (\<lambda>xs. xs) \<and> listing_ok rev
   \<and> (\<exists>c. parse (\<lambda>xs. xs) grammar [''they'', ''can'', ''fish''] = Some (Inr c)
        \<and> parse rev grammar [''they'', ''can'', ''fish''] = Some (Inr c))"
  using parse_deterministic [OF listing_ok_id listing_ok_rev, of grammar "[''they'', ''can'', ''fish'']"]
    listing_ok_id listing_ok_rev
  by simp

text \<open>Claim C10. The count that \<^verbatim>\<open>parse\<close> returns is at most the number of alternatives
  declared for the start symbol; when the start symbol has one alternative it is at most 1.\<close>

theorem parse_count_at_most_start_alternatives:
  assumes "listing_ok ls"
  shows "\<exists>c. parse ls g tokens = Some (Inr c)
     \<and> c \<le> int (case rules g (Grammar.start g) of None \<Rightarrow> 0 | Some alts \<Rightarrow> length alts)
     \<and> (\<forall>alt. rules g (Grammar.start g) = Some [alt] \<longrightarrow> c \<le> 1)"
proof -
  let ?c = "int (card {st. earley g tokens (length tokens) st \<and> accepting g st})"
  have p: "parse ls g tokens = Some (Inr ?c)" using assms by (rule parse_earley)
  have "card {st. earley g tokens (length tokens) st \<and> accepting g st}
      \<le> length (productions_for g (Grammar.start g))"
    by (rule accepting_items_bound)
  then have b: "?c \<le> int (case rules g (Grammar.start g) of None \<Rightarrow> 0 | Some alts \<Rightarrow> length alts)"
    by (simp add: length_productions_for)
  then have "\<forall>alt. rules g (Grammar.start g) = Some [alt] \<longrightarrow> ?c \<le> 1" by auto
  with p b show ?thesis by blast
qed

theorem parse_count_at_most_start_alternatives_witness:
  "listing_ok (\<lambda>xs. xs)
   \<and> rules grammar (Grammar.start grammar) = Some [[NT NP, NT VP]]
   \<and> (\<exists>c. parse (\<lambda>xs. xs) grammar [''they'', ''can'', ''fish'', ''in'', ''rivers'', ''in'', ''December'']
          = Some (Inr c) \<and> c \<le> 1)"
proof -
  have r: "rules grammar (Grammar.start grammar) = Some [[NT NP, NT VP]]"
    by (simp add: grammar_def RULES_def)
  from parse_count_at_most_start_alternatives [OF listing_ok_id, of grammar
      "[''they'', ''can'', ''fish'', ''in'', ''rivers'', ''in'', ''December'']"] r
  have "\<exists>c. parse (\<lambda>xs. xs) grammar [''they'', ''can'', ''fish'', ''in'', ''rivers'', ''in'', ''December'']
          = Some (Inr c) \<and> c \<le> 1" by blast
  with r listing_ok_id show ?thesis by simp
qed


end
